theory Spec2Isabelle
  imports Complex_Main "HOL-Library.AList"
begin

section \<open>JavaScript numbers\<close>

text \<open>
  The component keeps its counter, its step and its history entries in JavaScript
  numbers, that is IEEE 754 binary64 values.  A finite value is kept as the rational it
  denotes; the two zeros, the two infinities and NaN are separate constructors, so that
  HOL equality on \<open>jsnum\<close> is the same-value comparison \<open>Object.is\<close>.  Every
  arithmetic result is rounded to the nearest representable value, ties to even.
\<close>

datatype jsnum = Fin rat | NegZero | NaN | PosInf | NegInf

definition pow2 :: "int \<Rightarrow> rat" where
  "pow2 e = (if 0 \<le> e then 2 ^ nat e else 1 / 2 ^ nat (- e))"

definition pow10 :: "int \<Rightarrow> rat" where
  "pow10 e = (if 0 \<le> e then 10 ^ nat e else 1 / 10 ^ nat (- e))"

text \<open>The number of binary, respectively decimal, digits of a positive integer.\<close>

function bitlen_int :: "int \<Rightarrow> int" where
  "bitlen_int n = (if n \<le> 0 then 0 else 1 + bitlen_int (n div 2))"
  by pat_completeness auto
termination
  by (relation "measure nat") auto

declare bitlen_int.simps [simp del]

function declen_int :: "int \<Rightarrow> int" where
  "declen_int n = (if n \<le> 0 then 0 else 1 + declen_int (n div 10))"
  by pat_completeness auto
termination
  by (relation "measure nat") auto

declare declen_int.simps [simp del]

text \<open>For \<open>q > 0\<close>: the integer \<open>e\<close> with \<open>2 ^ e \<le> q < 2 ^ (e + 1)\<close>.\<close>

definition floor_log2 :: "rat \<Rightarrow> int" where
  "floor_log2 q =
     (let (a, b) = quotient_of q;
          e0 = bitlen_int a - bitlen_int b
      in if pow2 e0 \<le> q then e0 else e0 - 1)"

text \<open>For \<open>q > 0\<close>: the integer \<open>n\<close> with \<open>10 ^ (n - 1) \<le> q < 10 ^ n\<close>.\<close>

definition dec_exponent :: "rat \<Rightarrow> int" where
  "dec_exponent q =
     (let (a, b) = quotient_of q;
          n0 = declen_int a - declen_int b
      in if pow10 n0 \<le> q then n0 + 1 else n0)"

definition round_half_even :: "rat \<Rightarrow> int" where
  "round_half_even m =
     (let f = \<lfloor>m\<rfloor>; d = m - of_int f
      in if d < 1 / 2 then f else if 1 / 2 < d then f + 1
         else if even f then f else f + 1)"

text \<open>
  Rounding of a positive magnitude to binary64: 53 significant bits, the least exponent of
  a unit in the last place is \<open>-1074\<close> (subnormal numbers), and a rounded magnitude of
  \<open>2 ^ 1024\<close> or more overflows (\<open>None\<close>): that is a magnitude of at least
  \<open>2 ^ 1024\<close>, or one below it whose 53-bit significand rounds up to \<open>2 ^ 53\<close>.
\<close>

definition round_mag :: "rat \<Rightarrow> rat option" where
  "round_mag q =
     (let e = floor_log2 q;
          p = max (e - 52) (- 1074);
          n = round_half_even (q / pow2 p)
      in if 1024 \<le> e \<or> (e = 1023 \<and> n = 2 ^ 53) then None
         else Some (of_int n * pow2 p))"

definition round_double :: "rat \<Rightarrow> jsnum" where
  "round_double r =
     (if r = 0 then Fin 0
      else if 0 < r then (case round_mag r of None \<Rightarrow> PosInf | Some v \<Rightarrow> Fin v)
      else (case round_mag (- r) of None \<Rightarrow> NegInf
            | Some v \<Rightarrow> if v = 0 then NegZero else Fin (- v)))"

fun jsneg :: "jsnum \<Rightarrow> jsnum" where
  "jsneg (Fin r) = (if r = 0 then NegZero else Fin (- r))"
| "jsneg NegZero = Fin 0"
| "jsneg NaN = NaN"
| "jsneg PosInf = NegInf"
| "jsneg NegInf = PosInf"

text \<open>\<open>x + y\<close> on numbers.\<close>

fun jsadd :: "jsnum \<Rightarrow> jsnum \<Rightarrow> jsnum" where
  "jsadd NaN y = NaN"
| "jsadd x NaN = NaN"
| "jsadd PosInf NegInf = NaN"
| "jsadd NegInf PosInf = NaN"
| "jsadd PosInf y = PosInf"
| "jsadd NegInf y = NegInf"
| "jsadd x PosInf = PosInf"
| "jsadd x NegInf = NegInf"
| "jsadd NegZero y = y"
| "jsadd x NegZero = x"
| "jsadd (Fin a) (Fin b) = round_double (a + b)"

text \<open>\<open>x - y\<close> on numbers is \<open>x + (-y)\<close>.\<close>

definition jssub :: "jsnum \<Rightarrow> jsnum \<Rightarrow> jsnum" where
  "jssub x y = jsadd x (jsneg y)"

text \<open>\<open>x === y\<close> on numbers: NaN equals nothing, the two zeros equal each other.\<close>

fun is_zero :: "jsnum \<Rightarrow> bool" where
  "is_zero (Fin r) = (r = 0)"
| "is_zero NegZero = True"
| "is_zero _ = False"

definition strict_eq :: "jsnum \<Rightarrow> jsnum \<Rightarrow> bool" where
  "strict_eq x y = (x \<noteq> NaN \<and> y \<noteq> NaN \<and> (x = y \<or> (is_zero x \<and> is_zero y)))"

text \<open>\<open>Number.isFinite\<close> and \<open>Number.isNaN\<close>.\<close>

fun Number_isFinite :: "jsnum \<Rightarrow> bool" where
  "Number_isFinite (Fin r) = True"
| "Number_isFinite NegZero = True"
| "Number_isFinite _ = False"

definition Number_isNaN :: "jsnum \<Rightarrow> bool" where
  "Number_isNaN x = (x = NaN)"


section \<open>Conversions between strings and numbers\<close>

text \<open>
  Strings are lists of 8-bit code units.  \<open>Number_str\<close> is \<open>Number(value)\<close> applied to a
  string (the StringToNumber grammar: surrounding white space, the empty string as zero,
  signed decimal literals with fraction and exponent, \<open>Infinity\<close>, and unsigned binary,
  octal and hexadecimal integers; anything else is NaN).  \<open>String_num\<close> is
  \<open>String(count)\<close> applied to a number (the shortest digit string that reads back as
  the same value).
\<close>

definition is_ws :: "char \<Rightarrow> bool" where
  "is_ws c = (c \<in> set [CHR 0x09, CHR 0x0A, CHR 0x0B, CHR 0x0C, CHR 0x0D, CHR 0x20, CHR 0xA0])"

definition trim :: "string \<Rightarrow> string" where
  "trim s = rev (dropWhile is_ws (rev (dropWhile is_ws s)))"

fun index_of :: "char \<Rightarrow> string \<Rightarrow> int option" where
  "index_of c [] = None"
| "index_of c (d # ds) = (if c = d then Some 0 else map_option (\<lambda>i. i + 1) (index_of c ds))"

definition radix_digit :: "int \<Rightarrow> char \<Rightarrow> int option" where
  "radix_digit b c =
     (case index_of c ''0123456789abcdef'' of
        Some v \<Rightarrow> if v < b then Some v else None
      | None \<Rightarrow>
         (case index_of c ''ABCDEF'' of
            Some v \<Rightarrow> if v + 10 < b then Some (v + 10) else None
          | None \<Rightarrow> None))"

fun radix_value :: "int \<Rightarrow> int \<Rightarrow> string \<Rightarrow> int option" where
  "radix_value b acc [] = Some acc"
| "radix_value b acc (c # cs) =
     (case radix_digit b c of None \<Rightarrow> None | Some v \<Rightarrow> radix_value b (b * acc + v) cs)"

definition is_dec_digit :: "char \<Rightarrow> bool" where
  "is_dec_digit c = (radix_digit 10 c \<noteq> None)"

definition DecimalDigits :: "string \<Rightarrow> int option" where
  "DecimalDigits s = (if s = [] then None else radix_value 10 0 s)"

definition ExponentPart :: "string \<Rightarrow> int option" where
  "ExponentPart s =
     (case s of
        [] \<Rightarrow> Some 0
      | c # t \<Rightarrow>
          if c = CHR ''e'' \<or> c = CHR ''E'' then
            (case t of
               [] \<Rightarrow> None
             | d # u \<Rightarrow>
                 if d = CHR ''+'' then DecimalDigits u
                 else if d = CHR ''-'' then map_option uminus (DecimalDigits u)
                 else DecimalDigits t)
          else None)"

datatype mv = MV rat | MVInfinity

definition StrUnsignedDecimalLiteral :: "string \<Rightarrow> mv option" where
  "StrUnsignedDecimalLiteral s =
     (if s = ''Infinity'' then Some MVInfinity
      else
        let ip = takeWhile is_dec_digit s;
            r1 = dropWhile is_dec_digit s;
            (fp, r2) = (case r1 of
                          [] \<Rightarrow> ([], r1)
                        | c # t \<Rightarrow> if c = CHR ''.''
                                   then (takeWhile is_dec_digit t, dropWhile is_dec_digit t)
                                   else ([], r1))
        in if ip = [] \<and> fp = [] then None
           else
             (case (radix_value 10 0 (ip @ fp), ExponentPart r2) of
                (Some m, Some ex) \<Rightarrow> Some (MV (of_int m * pow10 (ex - int (length fp))))
              | _ \<Rightarrow> None))"

definition NonDecimalIntegerLiteral :: "string \<Rightarrow> int option" where
  "NonDecimalIntegerLiteral s =
     (case s of
        z # x # ds \<Rightarrow>
          if z = CHR ''0'' \<and> ds \<noteq> [] then
            (if x = CHR ''x'' \<or> x = CHR ''X'' then radix_value 16 0 ds
             else if x = CHR ''o'' \<or> x = CHR ''O'' then radix_value 8 0 ds
             else if x = CHR ''b'' \<or> x = CHR ''B'' then radix_value 2 0 ds
             else None)
          else None
      | _ \<Rightarrow> None)"

definition Number_str :: "string \<Rightarrow> jsnum" where
  "Number_str raw =
     (let t = trim raw in
      if t = [] then Fin 0
      else
        (case NonDecimalIntegerLiteral t of
           Some n \<Rightarrow> round_double (of_int n)
         | None \<Rightarrow>
            (case t of
               [] \<Rightarrow> Fin 0
             | c # u \<Rightarrow>
                 if c = CHR ''-'' then
                   (case StrUnsignedDecimalLiteral u of
                      None \<Rightarrow> NaN
                    | Some MVInfinity \<Rightarrow> NegInf
                    | Some (MV q) \<Rightarrow> if q = 0 then NegZero else round_double (- q))
                 else
                   (case StrUnsignedDecimalLiteral (if c = CHR ''+'' then u else t) of
                      None \<Rightarrow> NaN
                    | Some MVInfinity \<Rightarrow> PosInf
                    | Some (MV q) \<Rightarrow> round_double q))))"

function dec_digits :: "int \<Rightarrow> string" where
  "dec_digits n =
     (if n < 10 then [''0123456789'' ! nat n]
      else dec_digits (n div 10) @ [''0123456789'' ! nat (n mod 10)])"
  by pat_completeness auto
termination
  by (relation "measure nat") auto

declare dec_digits.simps [simp del]

text \<open>
  The \<open>k\<close>-digit integers \<open>s\<close> next to \<open>x / 10 ^ (n - k)\<close>; one is accepted when
  \<open>s * 10 ^ (n - k)\<close> rounds to \<open>x\<close>, the closer one when both do.
\<close>

definition digits_at :: "rat \<Rightarrow> int \<Rightarrow> int \<Rightarrow> (int \<times> int) option" where
  "digits_at x n k =
     (let scale = pow10 (n - k);
          lo = \<lfloor>x / scale\<rfloor>;
          hi = lo + 1;
          ok_lo = (round_double (of_int lo * scale) = Fin x);
          ok_hi = (round_double (of_int hi * scale) = Fin x);
          d_lo = x - of_int lo * scale;
          d_hi = of_int hi * scale - x
      in if ok_lo \<and> ok_hi then
           Some (if d_lo < d_hi then lo else if d_hi < d_lo then hi
                 else if even lo then lo else hi, k)
         else if ok_lo then Some (lo, k)
         else if ok_hi then Some (hi, k)
         else None)"

fun first_some :: "('a \<Rightarrow> 'b option) \<Rightarrow> 'a list \<Rightarrow> 'b option" where
  "first_some f [] = None"
| "first_some f (x # xs) = (case f x of Some y \<Rightarrow> Some y | None \<Rightarrow> first_some f xs)"

definition shortest_digits :: "rat \<Rightarrow> int \<times> int \<times> int" where
  "shortest_digits x =
     (let n0 = dec_exponent x;
          (s, k) = (case first_some (digits_at x n0) [1 .. 17] of
                      Some r \<Rightarrow> r
                    | None \<Rightarrow> (\<lfloor>x / pow10 (n0 - 17)\<rfloor>, 17))
      in if s = 10 ^ nat k then (10 ^ nat (k - 1), k, n0 + 1) else (s, k, n0))"

definition format_digits :: "string \<Rightarrow> int \<Rightarrow> int \<Rightarrow> string" where
  "format_digits ds k n =
     (if k \<le> n \<and> n \<le> 21 then ds @ replicate (nat (n - k)) (CHR ''0'')
      else if 0 < n \<and> n \<le> 21 then take (nat n) ds @ ''.'' @ drop (nat n) ds
      else if - 6 < n \<and> n \<le> 0 then ''0.'' @ replicate (nat (- n)) (CHR ''0'') @ ds
      else
        let e = n - 1;
            es = (if e < 0 then ''-'' else ''+'') @ dec_digits \<bar>e\<bar>
        in if k = 1 then ds @ ''e'' @ es
           else take 1 ds @ ''.'' @ drop 1 ds @ ''e'' @ es)"

definition toString_pos :: "rat \<Rightarrow> string" where
  "toString_pos x = (let (s, k, n) = shortest_digits x in format_digits (dec_digits s) k n)"

fun String_num :: "jsnum \<Rightarrow> string" where
  "String_num NaN = ''NaN''"
| "String_num NegZero = ''0''"
| "String_num PosInf = ''Infinity''"
| "String_num NegInf = ''-Infinity''"
| "String_num (Fin r) =
     (if r = 0 then ''0'' else if r < 0 then ''-'' @ toString_pos (- r) else toString_pos r)"


section \<open>The browser environment\<close>

text \<open>
  \<open>localStorage\<close> is an association list from keys to strings; each of its three
  operations may throw (storage denied, quota exceeded), which the environment decides.
  An exception is a value: \<open>Inl\<close> of a sum.
\<close>

datatype exn = StorageError

record localStorage =
  items :: "(string \<times> string) list"
  getThrows :: bool
  setThrows :: bool
  removeThrows :: bool

definition getItem :: "string \<Rightarrow> localStorage \<Rightarrow> exn + string option" where
  "getItem k st = (if getThrows st then Inl StorageError else Inr (map_of (items st) k))"

definition setItem :: "string \<Rightarrow> string \<Rightarrow> localStorage \<Rightarrow> exn + localStorage" where
  "setItem k v st =
     (if setThrows st then Inl StorageError else Inr (st\<lparr>items := AList.update k v (items st)\<rparr>))"

definition removeItem :: "string \<Rightarrow> localStorage \<Rightarrow> exn + localStorage" where
  "removeItem k st =
     (if removeThrows st then Inl StorageError else Inr (st\<lparr>items := AList.delete k (items st)\<rparr>))"

definition try_catch :: "exn + 'a \<Rightarrow> (exn \<Rightarrow> exn + 'a) \<Rightarrow> exn + 'a" where
  "try_catch body handler = (case body of Inl e \<Rightarrow> handler e | Inr v \<Rightarrow> Inr v)"

definition then_do :: "exn + 'a \<Rightarrow> ('a \<Rightarrow> exn + 'b) \<Rightarrow> exn + 'b" where
  "then_do r f = (case r of Inl e \<Rightarrow> Inl e | Inr v \<Rightarrow> f v)"

text \<open>
  A pending timeout: its id, the time (in ms) from which it may fire, and the \<open>count\<close>
  that the callback's closure captured when it was scheduled.
\<close>

record timer =
  tid :: nat
  due :: nat
  snapshot :: jsnum

section \<open>The component\<close>

text \<open>
  The state of one mounted \<open>AdvancedCounter\<close>: its four \<open>useState\<close> cells, its three
  \<open>useRef\<close> cells, and the part of the browser it acts on (storage, the timer table, the
  clock, whether its \<open>keydown\<close> listener is registered on the document, and whether the
  component is still in the tree).
\<close>

record component =
  count :: jsnum
  history :: "jsnum list"
  step :: jsnum
  isSaving :: bool
  stepRef :: jsnum
  saveTimerRef :: "nat option"
  isUnmountedRef :: bool
  storage :: localStorage
  timers :: "timer list"
  nextTimerId :: nat
  now :: nat
  keydownListener :: bool
  mounted :: bool

definition STORAGE_KEY :: string where
  "STORAGE_KEY = ''advanced-counter-count''"

text \<open>
  The four state setters.  React discards a state update of a component that is no longer
  mounted.
\<close>

definition setCount :: "jsnum \<Rightarrow> component \<Rightarrow> component" where
  "setCount v s = (if mounted s then s\<lparr>count := v\<rparr> else s)"

definition setHistory :: "jsnum list \<Rightarrow> component \<Rightarrow> component" where
  "setHistory h s = (if mounted s then s\<lparr>history := h\<rparr> else s)"

definition setStep :: "jsnum \<Rightarrow> component \<Rightarrow> component" where
  "setStep v s = (if mounted s then s\<lparr>step := v\<rparr> else s)"

definition setIsSaving :: "bool \<Rightarrow> component \<Rightarrow> component" where
  "setIsSaving b s = (if mounted s then s\<lparr>isSaving := b\<rparr> else s)"

definition setTimeout :: "jsnum \<Rightarrow> nat \<Rightarrow> component \<Rightarrow> nat \<times> component" where
  "setTimeout c delay s =
     (nextTimerId s,
      s\<lparr>timers := timers s @ [\<lparr>tid = nextTimerId s, due = now s + delay, snapshot = c\<rparr>],
        nextTimerId := nextTimerId s + 1\<rparr>)"

definition clearTimeout :: "nat \<Rightarrow> component \<Rightarrow> component" where
  "clearTimeout i s = s\<lparr>timers := filter (\<lambda>t. tid t \<noteq> i) (timers s)\<rparr>"

subsection \<open>State initialisers\<close>

definition init_count :: "localStorage \<Rightarrow> exn + jsnum" where
  "init_count st =
     try_catch
       (then_do (getItem STORAGE_KEY st)
          (\<lambda>raw. Inr (case raw of Some r \<Rightarrow> Number_str r | None \<Rightarrow> Fin 0)))
       (\<lambda>e. Inr (Fin 0))"

definition init_history :: "localStorage \<Rightarrow> exn + jsnum list" where
  "init_history st =
     try_catch
       (then_do (getItem STORAGE_KEY st)
          (\<lambda>raw. let initial = (case raw of Some r \<Rightarrow> Number_str r | None \<Rightarrow> Fin 0)
                 in Inr [initial]))
       (\<lambda>e. Inr [Fin 0])"

subsection \<open>Effects\<close>

definition stepRef_effect :: "component \<Rightarrow> component" where
  "stepRef_effect s = s\<lparr>stepRef := step s\<rparr>"

text \<open>
  The updater that the history effect passes to \<open>setHistory\<close>; \<open>c\<close> is the \<open>count\<close> of
  the render whose effect it is.
\<close>

definition history_updater :: "jsnum \<Rightarrow> jsnum list \<Rightarrow> jsnum list" where
  "history_updater c prev =
     (if 0 < length prev \<and> strict_eq (prev ! (length prev - 1)) c then prev else prev @ [c])"

definition history_effect :: "component \<Rightarrow> component" where
  "history_effect s = setHistory (history_updater (count s) (history s)) s"

text \<open>
  The statement that the save effect, its cleanup and the unmount cleanup share:
  \<^verbatim>\<open>if (saveTimerRef.current !== null) { window.clearTimeout(saveTimerRef.current); saveTimerRef.current = null; }\<close>
\<close>

definition clear_save_timer :: "component \<Rightarrow> component" where
  "clear_save_timer s =
     (case saveTimerRef s of
        Some i \<Rightarrow> (clearTimeout i s)\<lparr>saveTimerRef := None\<rparr>
      | None \<Rightarrow> s)"

text \<open>
  The body of the save effect.  The callback it schedules captures the \<open>count\<close> of the
  render, which the timer table keeps as the timeout's \<open>snapshot\<close>.
\<close>

definition save_effect :: "component \<Rightarrow> component" where
  "save_effect s =
     (let s1 = s\<lparr>isUnmountedRef := False\<rparr>;
          s2 = clear_save_timer s1;
          s3 = setIsSaving True s2;
          (timerId, s4) = setTimeout (count s) 400 s3
      in s4\<lparr>saveTimerRef := Some timerId\<rparr>)"

text \<open>The timer callback of the save effect; \<open>c\<close> is the \<open>count\<close> of its closure.\<close>

definition save_timer_callback :: "jsnum \<Rightarrow> component \<Rightarrow> exn + component" where
  "save_timer_callback c s =
     (if isUnmountedRef s then Inr s
      else
        then_do
          (try_catch
             (then_do (setItem STORAGE_KEY (String_num c) (storage s))
                (\<lambda>st. Inr (s\<lparr>storage := st\<rparr>)))
             (\<lambda>e. Inr s))
          (\<lambda>s1. let s2 = (if \<not> isUnmountedRef s1 then setIsSaving False s1 else s1)
                in Inr (s2\<lparr>saveTimerRef := None\<rparr>)))"

definition save_cleanup :: "component \<Rightarrow> component" where
  "save_cleanup s =
     (let s1 = clear_save_timer s
      in if \<not> isUnmountedRef s1 then setIsSaving False s1 else s1)"

definition unmount_cleanup :: "component \<Rightarrow> component" where
  "unmount_cleanup s = clear_save_timer (s\<lparr>isUnmountedRef := True\<rparr>)"

definition onKeyDown :: "string \<Rightarrow> component \<Rightarrow> component" where
  "onKeyDown key s =
     (if key = ''ArrowUp'' then setCount (jsadd (count s) (stepRef s)) s
      else if key = ''ArrowDown'' then setCount (jssub (count s) (stepRef s)) s
      else s)"

definition keyboard_effect :: "component \<Rightarrow> component" where
  "keyboard_effect s = s\<lparr>keydownListener := True\<rparr>"

definition keyboard_cleanup :: "component \<Rightarrow> component" where
  "keyboard_cleanup s = s\<lparr>keydownListener := False\<rparr>"

subsection \<open>Handlers\<close>

text \<open>
  \<open>increment\<close> and \<open>decrement\<close> are re-created whenever \<open>step\<close> changes, so the \<open>step\<close>
  of their closure is the current one.
\<close>

definition increment :: "component \<Rightarrow> component" where
  "increment s = setCount (jsadd (count s) (step s)) s"

definition decrement :: "component \<Rightarrow> component" where
  "decrement s = setCount (jssub (count s) (step s)) s"

definition reset :: "component \<Rightarrow> exn + component" where
  "reset s =
     (let s1 = setCount (Fin 0) s;
          s2 = setHistory [] s1
      in try_catch
           (then_do (removeItem STORAGE_KEY (storage s2)) (\<lambda>st. Inr (s2\<lparr>storage := st\<rparr>)))
           (\<lambda>e. Inr s2))"

definition handleStepChange :: "string \<Rightarrow> component \<Rightarrow> component" where
  "handleStepChange value s =
     (let parsed = Number_str value
      in if \<not> Number_isFinite parsed \<or> Number_isNaN parsed then setStep (Fin 1) s
         else
           let normalized = (if strict_eq parsed (Fin 0) then Fin 1 else parsed)
           in setStep normalized s)"

subsection \<open>Rendering, mounting and unmounting\<close>

text \<open>
  After a handler has run, the component renders with the new state and then runs its
  effects: first the cleanup of every effect one of whose dependencies changed (compared
  with \<open>Object.is\<close>, here equality), then those effects in the order of their
  declaration.  \<open>old\<close> is the state of the previous render.  The state updates that the
  effects make (\<open>setHistory\<close>, \<open>setIsSaving\<close>) cause one more render, in which no
  dependency has changed.
\<close>

definition commit :: "component \<Rightarrow> component \<Rightarrow> component" where
  "commit old s =
     (let count_changed = (count s \<noteq> count old);
          step_changed = (step s \<noteq> step old);
          s1 = (if count_changed then save_cleanup s else s);
          s2 = (if step_changed then stepRef_effect s1 else s1);
          s3 = (if count_changed then history_effect s2 else s2)
      in if count_changed then save_effect s3 else s3)"

text \<open>The first render on a page whose storage is \<open>st\<close>, and the first run of all effects.\<close>

definition mount :: "localStorage \<Rightarrow> exn + component" where
  "mount st =
     then_do (init_count st) (\<lambda>c.
     then_do (init_history st) (\<lambda>h.
       let s0 = \<lparr>count = c, history = h, step = Fin 1, isSaving = False,
                 stepRef = Fin 1, saveTimerRef = None, isUnmountedRef = False,
                 storage = st, timers = [], nextTimerId = 1, now = 0,
                 keydownListener = False, mounted = True\<rparr>
       in Inr (keyboard_effect (save_effect (history_effect (stepRef_effect s0))))))"

text \<open>
  Unmounting removes the component from the tree and then runs the cleanups of all effects
  in the order of their declaration.
\<close>

definition unmount :: "component \<Rightarrow> component" where
  "unmount s = keyboard_cleanup (unmount_cleanup (save_cleanup (s\<lparr>mounted := False\<rparr>)))"

subsection \<open>Events\<close>

text \<open>
  What can happen to a mounted component: a click on one of the three buttons, an edit of
  the step input, a key pressed anywhere in the document, a timeout that the browser runs
  (no earlier than it is due), time passing, the component being unmounted, and the
  storage starting or ceasing to throw.  Every event is handled to the end, rendering and
  effects included, before the next one.
\<close>

datatype event =
    Click_increment
  | Click_decrement
  | Click_reset
  | Change_step string
  | Key_down string
  | Timer_fires nat
  | Elapse nat
  | Unmount
  | Storage_faults bool bool bool

fun dispatch :: "event \<Rightarrow> component \<Rightarrow> exn + component" where
  "dispatch Click_increment s = (if mounted s then Inr (commit s (increment s)) else Inr s)"
| "dispatch Click_decrement s = (if mounted s then Inr (commit s (decrement s)) else Inr s)"
| "dispatch Click_reset s =
     (if mounted s then then_do (reset s) (\<lambda>s'. Inr (commit s s')) else Inr s)"
| "dispatch (Change_step value) s =
     (if mounted s then Inr (commit s (handleStepChange value s)) else Inr s)"
| "dispatch (Key_down key) s =
     (if keydownListener s then Inr (commit s (onKeyDown key s)) else Inr s)"
| "dispatch (Timer_fires i) s =
     (case find (\<lambda>t. tid t = i) (timers s) of
        None \<Rightarrow> Inr s
      | Some t \<Rightarrow>
          if due t \<le> now s then
            then_do (save_timer_callback (snapshot t) (clearTimeout i s))
              (\<lambda>s'. Inr (commit s s'))
          else Inr s)"
| "dispatch (Elapse n) s = Inr (s\<lparr>now := now s + n\<rparr>)"
| "dispatch Unmount s = (if mounted s then Inr (unmount s) else Inr s)"
| "dispatch (Storage_faults g w r) s =
     Inr (s\<lparr>storage := (storage s)\<lparr>getThrows := g, setThrows := w, removeThrows := r\<rparr>\<rparr>)"

fun run :: "event list \<Rightarrow> component \<Rightarrow> exn + component" where
  "run [] s = Inr s"
| "run (ev # evs) s = then_do (dispatch ev s) (run evs)"

text \<open>A session: the component is mounted on a page with storage \<open>st\<close>, then events happen.\<close>

definition session :: "localStorage \<Rightarrow> event list \<Rightarrow> exn + component" where
  "session st evs = then_do (mount st) (run evs)"

section \<open>The first version of the component\<close>

text \<open>
  \<open>src/components/AdvancedCounter.tsx\<close> holds the component's first version: a count that
  starts at 0, an empty history, and two buttons that call \<open>updateCount\<close> with the count
  of the last render minus or plus one.  \<open>updateCount\<close> appends every new count.
\<close>

record core_component =
  core_count :: jsnum
  core_history :: "jsnum list"

definition updateCount :: "jsnum \<Rightarrow> core_component \<Rightarrow> core_component" where
  "updateCount newCount s = s\<lparr>core_count := newCount, core_history := core_history s @ [newCount]\<rparr>"

datatype core_event = Core_decrement | Core_increment

fun core_dispatch :: "core_event \<Rightarrow> core_component \<Rightarrow> core_component" where
  "core_dispatch Core_decrement s = updateCount (jssub (core_count s) (Fin 1)) s"
| "core_dispatch Core_increment s = updateCount (jsadd (core_count s) (Fin 1)) s"

definition core_initial :: core_component where
  "core_initial = \<lparr>core_count = Fin 0, core_history = []\<rparr>"

fun core_run :: "core_event list \<Rightarrow> core_component \<Rightarrow> core_component" where
  "core_run [] s = s"
| "core_run (ev # evs) s = core_run evs (core_dispatch ev s)"


section \<open>Auxiliary definitions for the proofs\<close>

text \<open>The string stored under the component's key, if any.\<close>

definition persisted :: "component \<Rightarrow> string option" where
  "persisted s = map_of (items (storage s)) STORAGE_KEY"

text \<open>What the two state initialisers compute from the storage.\<close>

definition initial_value :: "localStorage \<Rightarrow> jsnum" where
  "initial_value st =
     (case getItem STORAGE_KEY st of
        Inl e \<Rightarrow> Fin 0 | Inr None \<Rightarrow> Fin 0 | Inr (Some raw) \<Rightarrow> Number_str raw)"

text \<open>The storage after \<open>removeItem\<close>, respectively \<open>setItem\<close>, inside \<open>try\<close>/\<open>catch\<close>.\<close>

definition storage_after_remove :: "localStorage \<Rightarrow> localStorage" where
  "storage_after_remove st =
     (if removeThrows st then st else st\<lparr>items := AList.delete STORAGE_KEY (items st)\<rparr>)"

definition storage_after_set :: "string \<Rightarrow> localStorage \<Rightarrow> localStorage" where
  "storage_after_set v st =
     (if setThrows st then st else st\<lparr>items := AList.update STORAGE_KEY v (items st)\<rparr>)"

text \<open>
  The invariant of the save effect: the timer table holds exactly the timeout that
  \<open>saveTimerRef\<close> names, and its closure captured the current \<open>count\<close>.
\<close>

definition timer_ok :: "component \<Rightarrow> bool" where
  "timer_ok s =
     (case saveTimerRef s of
        None \<Rightarrow> timers s = []
      | Some i \<Rightarrow>
          (case timers s of
             [t] \<Rightarrow> tid t = i \<and> snapshot t = count s
           | _ \<Rightarrow> False))"

definition wf :: "component \<Rightarrow> bool" where
  "wf s =
     (timer_ok s \<and> stepRef s = step s \<and> keydownListener s = mounted s \<and>
      isUnmountedRef s = (\<not> mounted s) \<and> (mounted s \<or> timers s = []))"

text \<open>Some entry of the list is \<open>===\<close> to the next one.\<close>

fun adjacent_strict_eq :: "jsnum list \<Rightarrow> bool" where
  "adjacent_strict_eq (x # y # r) = (strict_eq x y \<or> adjacent_strict_eq (y # r))"
| "adjacent_strict_eq _ = False"

text \<open>A positive integer, as a number.\<close>

fun is_positive_integer :: "jsnum \<Rightarrow> bool" where
  "is_positive_integer (Fin r) = (0 < r \<and> of_int \<lfloor>r\<rfloor> = r)"
| "is_positive_integer _ = False"

subsection \<open>Concrete pages and states\<close>

definition empty_storage :: localStorage where
  "empty_storage = \<lparr>items = [], getThrows = False, setThrows = False, removeThrows = False\<rparr>"

definition storage_holding :: "string \<Rightarrow> localStorage" where
  "storage_holding v =
     \<lparr>items = [(STORAGE_KEY, v)], getThrows = False, setThrows = False, removeThrows = False\<rparr>"

definition denied_storage :: localStorage where
  "denied_storage = \<lparr>items = [], getThrows = True, setThrows = True, removeThrows = True\<rparr>"

text \<open>The component right after mounting on a page with empty storage.\<close>

definition fresh :: component where
  "fresh =
     \<lparr>count = Fin 0, history = [Fin 0], step = Fin 1, isSaving = True, stepRef = Fin 1,
      saveTimerRef = Some 1, isUnmountedRef = False, storage = empty_storage,
      timers = [\<lparr>tid = 1, due = 400, snapshot = Fin 0\<rparr>], nextTimerId = 2, now = 0,
      keydownListener = True, mounted = True\<rparr>"

text \<open>
  The states of the debounce scenario: the count was raised at 0 ms and at 100 ms
  (\<open>debounce_s1\<close>, at 200 ms), it is raised a third time at 200 ms (\<open>debounce_s2\<close>), and
  the timeout of that third change has run at 600 ms (\<open>debounce_s4\<close>).
\<close>

definition debounce_s1 :: component where
  "debounce_s1 =
     fresh\<lparr>count := Fin 2, history := [Fin 0, Fin 1, Fin 2], saveTimerRef := Some 3,
           timers := [\<lparr>tid = 3, due = 500, snapshot = Fin 2\<rparr>], nextTimerId := 4, now := 200\<rparr>"

definition debounce_s2 :: component where
  "debounce_s2 =
     fresh\<lparr>count := Fin 3, history := [Fin 0, Fin 1, Fin 2, Fin 3], saveTimerRef := Some 4,
           timers := [\<lparr>tid = 4, due = 600, snapshot = Fin 3\<rparr>], nextTimerId := 5, now := 200\<rparr>"

definition debounce_s4 :: component where
  "debounce_s4 =
     fresh\<lparr>count := Fin 3, history := [Fin 0, Fin 1, Fin 2, Fin 3], isSaving := False,
           saveTimerRef := None, storage := storage_holding ''3'', timers := [],
           nextTimerId := 5, now := 600\<rparr>"

text \<open>\<open>fresh\<close> after it has been unmounted.\<close>

definition unmounted_fresh :: component where
  "unmounted_fresh =
     fresh\<lparr>saveTimerRef := None, isUnmountedRef := True, timers := [],
           keydownListener := False, mounted := False\<rparr>"


section \<open>Basic facts\<close>

lemma then_do_simps [simp]:
  "then_do (Inr v) f = f v" "then_do (Inl e) f = Inl e"
  by (simp_all add: then_do_def)

lemma try_catch_simps [simp]:
  "try_catch (Inr v) h = Inr v" "try_catch (Inl e) h = h e"
  by (simp_all add: try_catch_def)

lemmas effect_defs =
  keyboard_effect_def keyboard_cleanup_def save_effect_def save_cleanup_def
  unmount_cleanup_def history_effect_def stepRef_effect_def clear_save_timer_def
  setIsSaving_def setTimeout_def clearTimeout_def setHistory_def setCount_def setStep_def

lemma strict_eq_refl: "strict_eq x x = (x \<noteq> NaN)"
  by (simp add: strict_eq_def)

subsection \<open>The number model on examples\<close>

lemma jsadd_examples:
  "jsadd (Fin 3) (Fin 4) = Fin 7"
  "jsadd (Fin (2 ^ 53)) (Fin 1) = Fin (2 ^ 53)"
  "jsadd (Fin (2 ^ 53)) (Fin 2) = Fin (2 ^ 53 + 2)"
  "jsadd (Fin (1 / 2)) (Fin (1 / 4)) = Fin (3 / 4)"
  "jssub (Fin 1) (Fin 1) = Fin 0"
  "jsadd PosInf (Fin 1) = PosInf"
  "jssub PosInf PosInf = NaN"
  "jsadd NaN (Fin 1) = NaN"
  by code_simp+

lemma Number_str_examples:
  "map Number_str [''5'', ''abc'', ''0'', [], '' 12 '', ''-3'', ''2.5'', ''1e3'', ''0x1f'',
      ''Infinity'', ''-Infinity'', ''.5'', ''5.'', ''.'', ''-0'', ''12px'',
      ''9007199254740993'']
   = [Fin 5, NaN, Fin 0, Fin 0, Fin 12, Fin (- 3), Fin (5 / 2), Fin 1000, Fin 31,
      PosInf, NegInf, Fin (1 / 2), Fin 5, NaN, NegZero, NaN, Fin 9007199254740992]"
  by code_simp

lemma String_num_examples:
  "map String_num [Fin 0, NegZero, Fin 5, Fin (- 3), Fin (5 / 2), Fin (2 ^ 53), NaN, PosInf,
      NegInf, Fin (10 ^ 21), Fin (1 / 8)]
   = [''0'', ''0'', ''5'', ''-3'', ''2.5'', ''9007199254740992'', ''NaN'', ''Infinity'',
      ''-Infinity'', ''1e+21'', ''0.125'']"
  by code_simp

subsection \<open>The handlers that catch exceptions always return\<close>

lemma init_count_eq: "init_count st = Inr (initial_value st)"
  by (cases "getItem STORAGE_KEY st")
     (simp_all add: init_count_def initial_value_def split: option.splits)

lemma init_history_eq: "init_history st = Inr [initial_value st]"
  by (cases "getItem STORAGE_KEY st")
     (simp_all add: init_history_def initial_value_def split: option.splits)

lemma mount_eq:
  "mount st =
     Inr \<lparr>count = initial_value st,
          history = (if initial_value st = NaN then [NaN, NaN] else [initial_value st]),
          step = Fin 1, isSaving = True, stepRef = Fin 1, saveTimerRef = Some 1,
          isUnmountedRef = False, storage = st,
          timers = [\<lparr>tid = 1, due = 400, snapshot = initial_value st\<rparr>],
          nextTimerId = 2, now = 0, keydownListener = True, mounted = True\<rparr>"
  by (simp add: mount_def init_count_eq init_history_eq effect_defs history_updater_def
      strict_eq_refl)

lemma reset_eq:
  "mounted s \<Longrightarrow>
   reset s = Inr (s\<lparr>count := Fin 0, history := [], storage := storage_after_remove (storage s)\<rparr>)"
  by (simp add: reset_def removeItem_def storage_after_remove_def setCount_def setHistory_def)

lemma reset_total: "\<exists>s'. reset s = Inr s'"
  by (simp add: reset_def removeItem_def Let_def)

lemma save_timer_callback_eq:
  "mounted s \<Longrightarrow>
   save_timer_callback c s =
     Inr (if isUnmountedRef s then s
          else s\<lparr>storage := storage_after_set (String_num c) (storage s),
                 isSaving := False, saveTimerRef := None\<rparr>)"
  by (simp add: save_timer_callback_def setItem_def storage_after_set_def setIsSaving_def)

lemma save_timer_callback_unmounted:
  "isUnmountedRef s \<Longrightarrow> save_timer_callback c s = Inr s"
  by (simp add: save_timer_callback_def)

lemma save_timer_callback_total: "\<exists>s'. save_timer_callback c s = Inr s'"
  by (simp add: save_timer_callback_def setItem_def Let_def)

lemma dispatch_total: "\<exists>s'. dispatch ev s = Inr s'"
proof (cases ev)
  case Click_reset
  obtain s1 where "reset s = Inr s1" using reset_total by blast
  with Click_reset show ?thesis by simp
next
  case (Timer_fires i)
  show ?thesis
  proof (cases "find (\<lambda>t. tid t = i) (timers s)")
    case None
    with Timer_fires show ?thesis by simp
  next
    case (Some t)
    obtain s1 where "save_timer_callback (snapshot t) (clearTimeout i s) = Inr s1"
      using save_timer_callback_total by blast
    with Timer_fires Some show ?thesis by simp
  qed
qed simp_all

lemma run_total: "\<exists>s'. run evs s = Inr s'"
proof (induction evs arbitrary: s)
  case Nil
  show ?case by simp
next
  case (Cons ev evs)
  obtain s1 where "dispatch ev s = Inr s1" using dispatch_total by blast
  with Cons show ?case by simp
qed

lemma session_total: "\<exists>s. session st evs = Inr s"
  by (simp add: session_def mount_eq run_total)

lemma run_append: "run (xs @ ys) s = then_do (run xs s) (run ys)"
proof (induction xs arbitrary: s)
  case Nil
  show ?case by simp
next
  case (Cons ev xs)
  obtain s1 where "dispatch ev s = Inr s1" using dispatch_total by blast
  with Cons show ?case by simp
qed

lemma session_snoc:
  "session st (evs @ [ev]) = Inr s \<longleftrightarrow> (\<exists>s1. session st evs = Inr s1 \<and> dispatch ev s1 = Inr s)"
proof -
  obtain s0 where s0: "mount st = Inr s0" by (simp add: mount_eq)
  obtain s1 where s1: "run evs s0 = Inr s1" using run_total by blast
  obtain s2 where s2: "dispatch ev s1 = Inr s2" using dispatch_total by blast
  show ?thesis by (simp add: session_def s0 run_append s1 s2)
qed

subsection \<open>What rendering leaves alone\<close>

lemma count_commit [simp]: "count (commit old s) = count s"
  by (simp add: commit_def effect_defs Let_def split: option.splits)

lemma step_commit [simp]: "step (commit old s) = step s"
  by (simp add: commit_def effect_defs Let_def split: option.splits)

lemma storage_commit [simp]: "storage (commit old s) = storage s"
  by (simp add: commit_def effect_defs Let_def split: option.splits)

lemma now_commit [simp]: "now (commit old s) = now s"
  by (simp add: commit_def effect_defs Let_def split: option.splits)

lemma mounted_commit [simp]: "mounted (commit old s) = mounted s"
  by (simp add: commit_def effect_defs Let_def split: option.splits)

lemma keydownListener_commit [simp]: "keydownListener (commit old s) = keydownListener s"
  by (simp add: commit_def effect_defs Let_def split: option.splits)

lemma stepRef_commit:
  "stepRef old = step old \<Longrightarrow> stepRef s = stepRef old \<Longrightarrow> stepRef (commit old s) = step s"
  by (auto simp: commit_def effect_defs Let_def split: option.splits)

lemma commit_unchanged:
  "count s = count old \<Longrightarrow> step s = step old \<Longrightarrow> commit old s = s"
  by (simp add: commit_def)

subsection \<open>The invariant holds in every state of a session\<close>

lemma wf_commit:
  assumes "wf old"
    and "timers s = timers old" "saveTimerRef s = saveTimerRef old"
    and "stepRef s = stepRef old" "keydownListener s = keydownListener old"
    and "mounted s = mounted old" "isUnmountedRef s = isUnmountedRef old"
    and "mounted old"
  shows "wf (commit old s)"
  using assms
  by (auto simp: wf_def timer_ok_def commit_def effect_defs Let_def
      split: option.splits list.splits)

lemma wf_commit_fired:
  assumes "wf old" "mounted old"
    and "timers s = []" "saveTimerRef s = None" "count s = count old" "step s = step old"
    and "stepRef s = stepRef old" "keydownListener s = keydownListener old"
    and "mounted s = mounted old" "isUnmountedRef s = isUnmountedRef old"
  shows "wf (commit old s)"
  using assms
  by (auto simp: wf_def timer_ok_def commit_def effect_defs Let_def
      split: option.splits list.splits)

lemma wf_unmount: "wf s \<Longrightarrow> wf (unmount s)"
  by (auto simp: wf_def timer_ok_def unmount_def effect_defs split: option.splits list.splits)

lemma wf_pending:
  assumes "wf s" and "find (\<lambda>t. tid t = i) (timers s) = Some t"
  shows "timers s = [t] \<and> tid t = i \<and> saveTimerRef s = Some i \<and> snapshot t = count s
    \<and> mounted s \<and> \<not> isUnmountedRef s"
proof -
  from assms(2) have ne: "timers s \<noteq> []" by auto
  with assms(1) have m: "mounted s" "\<not> isUnmountedRef s" by (auto simp: wf_def)
  from ne assms(1) obtain t0 where t0: "timers s = [t0]" "saveTimerRef s = Some (tid t0)"
    "snapshot t0 = count s"
    by (auto simp: wf_def timer_ok_def split: option.splits list.splits)
  with assms(2) have "t = t0" "tid t0 = i" by (auto split: if_splits)
  with t0 m show ?thesis by simp
qed

text \<open>The state after a timeout that was pending and due has run.\<close>

lemma dispatch_timer_fires:
  assumes "wf s" and "find (\<lambda>t. tid t = i) (timers s) = Some t" and "due t \<le> now s"
  shows "dispatch (Timer_fires i) s =
     Inr (s\<lparr>timers := [], storage := storage_after_set (String_num (count s)) (storage s),
            isSaving := False, saveTimerRef := None\<rparr>)"
proof -
  from wf_pending [OF assms(1,2)]
  have p: "timers s = [t]" "tid t = i" "snapshot t = count s" "\<not> isUnmountedRef s"
    "mounted s"
    by simp_all
  let ?s1 = "(clearTimeout i s)\<lparr>storage := storage_after_set (String_num (count s)) (storage s),
                 isSaving := False, saveTimerRef := None\<rparr>"
  have "dispatch (Timer_fires i) s = Inr (commit s ?s1)"
    using assms(2,3) p by (simp add: save_timer_callback_eq clearTimeout_def)
  moreover have "commit s ?s1 = ?s1"
    by (rule commit_unchanged) (simp_all add: clearTimeout_def)
  moreover have "clearTimeout i s = s\<lparr>timers := []\<rparr>"
    using p by (simp add: clearTimeout_def)
  ultimately show ?thesis by simp
qed

lemma wf_dispatch:
  assumes "wf s" and "dispatch ev s = Inr s'"
  shows "wf s'"
proof (cases ev)
  case Click_increment
  with assms show ?thesis
    by (auto simp: increment_def setCount_def intro!: wf_commit split: if_splits)
next
  case Click_decrement
  with assms show ?thesis
    by (auto simp: decrement_def setCount_def intro!: wf_commit split: if_splits)
next
  case Click_reset
  with assms show ?thesis
    by (auto simp: reset_eq intro!: wf_commit split: if_splits)
next
  case (Change_step v)
  with assms show ?thesis
    by (auto simp: handleStepChange_def setStep_def Let_def intro!: wf_commit split: if_splits)
next
  case (Key_down k)
  show ?thesis
  proof (cases "keydownListener s")
    case False
    with Key_down assms show ?thesis by simp
  next
    case True
    with assms(1) have "mounted s" by (simp add: wf_def)
    with True Key_down assms show ?thesis
      by (auto simp: onKeyDown_def setCount_def intro!: wf_commit split: if_splits)
  qed
next
  case (Timer_fires i)
  show ?thesis
  proof (cases "find (\<lambda>t. tid t = i) (timers s)")
    case None
    with Timer_fires assms show ?thesis by simp
  next
    case (Some t)
    show ?thesis
    proof (cases "due t \<le> now s")
      case False
      with Timer_fires Some assms show ?thesis by simp
    next
      case True
      from dispatch_timer_fires [OF assms(1) Some True] Timer_fires assms(2)
      have "s' = s\<lparr>timers := [], storage := storage_after_set (String_num (count s)) (storage s),
            isSaving := False, saveTimerRef := None\<rparr>"
        by simp
      with assms(1) show ?thesis by (simp add: wf_def timer_ok_def)
    qed
  qed
next
  case (Elapse n)
  with assms show ?thesis
    by (auto simp: wf_def timer_ok_def split: option.splits list.splits)
next
  case Unmount
  with assms show ?thesis by (auto simp: wf_unmount split: if_splits)
next
  case (Storage_faults g w r)
  with assms show ?thesis
    by (auto simp: wf_def timer_ok_def split: option.splits list.splits)
qed

lemma wf_mount: "mount st = Inr s \<Longrightarrow> wf s"
  by (auto simp: mount_eq wf_def timer_ok_def)

lemma wf_run: "wf s \<Longrightarrow> run evs s = Inr s' \<Longrightarrow> wf s'"
proof (induction evs arbitrary: s)
  case Nil
  then show ?case by simp
next
  case (Cons ev evs)
  obtain s1 where s1: "dispatch ev s = Inr s1" using dispatch_total by blast
  with Cons.prems have "wf s1" "run evs s1 = Inr s'" by (auto intro: wf_dispatch)
  then show ?case by (rule Cons.IH)
qed

lemma wf_session: "session st evs = Inr s \<Longrightarrow> wf s"
  by (auto simp: session_def mount_eq intro: wf_run wf_mount [OF mount_eq])

lemma session_empty_fresh: "session empty_storage [] = Inr fresh"
  by (simp add: session_def mount_eq initial_value_def getItem_def empty_storage_def fresh_def)

subsection \<open>What the handlers leave alone\<close>

lemma increment_frame [simp]:
  "storage (increment s) = storage s" "timers (increment s) = timers s"
  "now (increment s) = now s" "step (increment s) = step s"
  "isSaving (increment s) = isSaving s" "mounted (increment s) = mounted s"
  "history (increment s) = history s"
  "mounted s \<Longrightarrow> count (increment s) = jsadd (count s) (step s)"
  by (simp_all add: increment_def setCount_def)

lemma decrement_frame [simp]:
  "storage (decrement s) = storage s" "timers (decrement s) = timers s"
  "now (decrement s) = now s" "step (decrement s) = step s"
  "isSaving (decrement s) = isSaving s" "mounted (decrement s) = mounted s"
  "history (decrement s) = history s"
  "mounted s \<Longrightarrow> count (decrement s) = jssub (count s) (step s)"
  by (simp_all add: decrement_def setCount_def)

lemma handleStepChange_frame [simp]:
  "storage (handleStepChange v s) = storage s" "timers (handleStepChange v s) = timers s"
  "now (handleStepChange v s) = now s" "count (handleStepChange v s) = count s"
  "isSaving (handleStepChange v s) = isSaving s" "mounted (handleStepChange v s) = mounted s"
  "history (handleStepChange v s) = history s"
  by (simp_all add: handleStepChange_def setStep_def Let_def)

lemma onKeyDown_frame [simp]:
  "storage (onKeyDown k s) = storage s" "timers (onKeyDown k s) = timers s"
  "now (onKeyDown k s) = now s" "step (onKeyDown k s) = step s"
  "isSaving (onKeyDown k s) = isSaving s" "mounted (onKeyDown k s) = mounted s"
  "history (onKeyDown k s) = history s"
  by (simp_all add: onKeyDown_def setCount_def)


subsection \<open>The stored value\<close>

lemma persisted_after_remove:
  "map_of (items (storage_after_remove st)) STORAGE_KEY = None
   \<or> storage_after_remove st = st"
  by (simp add: storage_after_remove_def delete_conv')

lemma persisted_after_set:
  "map_of (items (storage_after_set v st)) STORAGE_KEY = Some v
   \<or> storage_after_set v st = st"
  by (simp add: storage_after_set_def update_conv')

lemma storage_unmount [simp]: "storage (unmount s) = storage s"
  by (simp add: unmount_def effect_defs Let_def split: option.splits)

lemma persisted_step:
  assumes "wf s" and "dispatch ev s = Inr s'"
  shows "persisted s' = persisted s \<or> persisted s' = None
    \<or> persisted s' = Some (String_num (count s))"
proof (cases ev)
  case Click_reset
  with assms persisted_after_remove [of "storage s"] show ?thesis
    by (auto simp: persisted_def reset_eq split: if_splits)
next
  case (Timer_fires i)
  show ?thesis
  proof (cases "find (\<lambda>t. tid t = i) (timers s)")
    case None
    with Timer_fires assms show ?thesis by simp
  next
    case (Some t)
    show ?thesis
    proof (cases "due t \<le> now s")
      case False
      with Timer_fires Some assms show ?thesis by simp
    next
      case True
      from dispatch_timer_fires [OF assms(1) Some True] Timer_fires assms(2)
      have "storage s' = storage_after_set (String_num (count s)) (storage s)" by auto
      with persisted_after_set [of "String_num (count s)" "storage s"] show ?thesis
        by (auto simp: persisted_def)
    qed
  qed
qed (use assms in \<open>auto simp: persisted_def split: if_splits\<close>)


subsection \<open>The timer table\<close>

lemma count_unmount [simp]: "count (unmount s) = count s"
  by (simp add: unmount_def effect_defs Let_def split: option.splits)

lemma now_unmount [simp]: "now (unmount s) = now s"
  by (simp add: unmount_def effect_defs Let_def split: option.splits)

lemma commit_changed:
  assumes "wf old" and "mounted old" and "count s \<noteq> count old"
    and "timers s = timers old" "saveTimerRef s = saveTimerRef old"
    and "nextTimerId s = nextTimerId old"
  shows "timers (commit old s) = [\<lparr>tid = nextTimerId old, due = now s + 400, snapshot = count s\<rparr>]"
  using assms
  by (auto simp: wf_def timer_ok_def commit_def effect_defs Let_def
      split: option.splits list.splits)

lemma change_schedules:
  assumes "wf s" and "dispatch ev s = Inr s'" and "count s' \<noteq> count s"
  shows "timers s' = [\<lparr>tid = nextTimerId s, due = now s + 400, snapshot = count s'\<rparr>]
    \<and> now s' = now s"
proof (cases ev)
  case Click_increment
  with assms show ?thesis
    by (auto simp: increment_def setCount_def commit_changed split: if_splits)
next
  case Click_decrement
  with assms show ?thesis
    by (auto simp: decrement_def setCount_def commit_changed split: if_splits)
next
  case Click_reset
  with assms show ?thesis
    by (auto simp: reset_eq commit_changed split: if_splits)
next
  case (Change_step v)
  with assms show ?thesis by (auto split: if_splits)
next
  case (Key_down k)
  show ?thesis
  proof (cases "keydownListener s")
    case False
    with Key_down assms show ?thesis by simp
  next
    case True
    with assms(1) have "mounted s" by (simp add: wf_def)
    with True Key_down assms show ?thesis
      by (auto simp: onKeyDown_def setCount_def commit_changed split: if_splits)
  qed
next
  case (Timer_fires i)
  show ?thesis
  proof (cases "find (\<lambda>t. tid t = i) (timers s)")
    case None
    with Timer_fires assms show ?thesis by simp
  next
    case (Some t)
    show ?thesis
    proof (cases "due t \<le> now s")
      case False
      with Timer_fires Some assms show ?thesis by simp
    next
      case True
      from dispatch_timer_fires [OF assms(1) Some True] Timer_fires assms(2,3)
      show ?thesis by auto
    qed
  qed
qed (use assms in \<open>auto split: if_splits\<close>)

lemma timers_unmount: "wf s \<Longrightarrow> timers (unmount s) = []"
  by (auto simp: wf_def timer_ok_def unmount_def effect_defs Let_def
      split: option.splits list.splits)

lemma commit_timers:
  assumes "wf old" and "mounted old"
    and "timers s = timers old" "saveTimerRef s = saveTimerRef old" "now s = now old"
  shows "timers (commit old s) = timers old
    \<or> (\<exists>i c. timers (commit old s) = [\<lparr>tid = i, due = now old + 400, snapshot = c\<rparr>])"
  using assms
  by (auto simp: wf_def timer_ok_def commit_def effect_defs Let_def
      split: option.splits list.splits)

lemma timers_step:
  assumes "wf s" and "dispatch ev s = Inr s'"
  shows "(timers s' = timers s \<or> timers s' = []
      \<or> (\<exists>i c. timers s' = [\<lparr>tid = i, due = now s + 400, snapshot = c\<rparr>]))
    \<and> now s \<le> now s'"
proof (cases ev)
  case Click_increment
  with assms commit_timers [OF assms(1), of "increment s"] show ?thesis
    by (auto simp: increment_def setCount_def split: if_splits)
next
  case Click_decrement
  with assms commit_timers [OF assms(1), of "decrement s"] show ?thesis
    by (auto simp: decrement_def setCount_def split: if_splits)
next
  case Click_reset
  with assms
    commit_timers [OF assms(1), of "s\<lparr>count := Fin 0, history := [],
      storage := storage_after_remove (storage s)\<rparr>"]
  show ?thesis by (auto simp: reset_eq split: if_splits)
next
  case (Change_step v)
  with assms commit_timers [OF assms(1), of "handleStepChange v s"] show ?thesis
    by (auto simp: handleStepChange_def setStep_def Let_def split: if_splits)
next
  case (Key_down k)
  show ?thesis
  proof (cases "keydownListener s")
    case False
    with Key_down assms show ?thesis by simp
  next
    case True
    with assms(1) have "mounted s" by (simp add: wf_def)
    with True Key_down assms commit_timers [OF assms(1), of "onKeyDown k s"] show ?thesis
      by (auto simp: onKeyDown_def setCount_def split: if_splits)
  qed
next
  case (Timer_fires i)
  show ?thesis
  proof (cases "find (\<lambda>t. tid t = i) (timers s)")
    case None
    with Timer_fires assms show ?thesis by simp
  next
    case (Some t)
    show ?thesis
    proof (cases "due t \<le> now s")
      case False
      with Timer_fires Some assms show ?thesis by simp
    next
      case True
      from dispatch_timer_fires [OF assms(1) Some True] Timer_fires assms(2)
      show ?thesis by auto
    qed
  qed
next
  case Unmount
  with assms show ?thesis by (auto simp: timers_unmount split: if_splits)
qed (use assms in \<open>auto split: if_splits\<close>)

lemma due_bound_run:
  assumes "wf s" and "run evs s = Inr s'"
    and "T \<le> now s" and "\<forall>t\<in>set (timers s). T + 400 \<le> due t"
  shows "T \<le> now s' \<and> (\<forall>t\<in>set (timers s'). T + 400 \<le> due t)"
  using assms
proof (induction evs arbitrary: s)
  case Nil
  then show ?case by simp
next
  case (Cons ev evs)
  obtain s1 where s1: "dispatch ev s = Inr s1" using dispatch_total by blast
  with Cons.prems have r: "run evs s1 = Inr s'" by simp
  from Cons.prems(1) s1 have wf1: "wf s1" by (rule wf_dispatch)
  from timers_step [OF Cons.prems(1) s1] Cons.prems(3,4)
  have "T \<le> now s1" "\<forall>t\<in>set (timers s1). T + 400 \<le> due t" by auto
  with wf1 r show ?case by (rule Cons.IH)
qed

lemma write_step:
  assumes "wf s" and "dispatch ev s = Inr s'"
    and "items (storage s') \<noteq> items (storage s)" and "persisted s' \<noteq> None"
  shows "(\<exists>i t. ev = Timer_fires i \<and> timers s = [t] \<and> tid t = i \<and> due t \<le> now s)
    \<and> persisted s' = Some (String_num (count s))"
proof (cases ev)
  case Click_reset
  with assms persisted_after_remove [of "storage s"] show ?thesis
    by (auto simp: persisted_def reset_eq split: if_splits)
next
  case (Timer_fires i)
  show ?thesis
  proof (cases "find (\<lambda>t. tid t = i) (timers s)")
    case None
    with Timer_fires assms show ?thesis by simp
  next
    case (Some t)
    show ?thesis
    proof (cases "due t \<le> now s")
      case False
      with Timer_fires Some assms show ?thesis by simp
    next
      case True
      from dispatch_timer_fires [OF assms(1) Some True] Timer_fires assms(2)
      have st: "storage s' = storage_after_set (String_num (count s)) (storage s)" by auto
      with persisted_after_set [of "String_num (count s)" "storage s"] assms(3)
      have "persisted s' = Some (String_num (count s))" by (auto simp: persisted_def)
      with wf_pending [OF assms(1) Some] True Timer_fires show ?thesis by simp
    qed
  qed
qed (use assms in \<open>auto split: if_splits\<close>)


subsection \<open>After unmounting\<close>

lemma isSaving_unmount [simp]: "isSaving (unmount s) = isSaving s"
  by (simp add: unmount_def effect_defs Let_def split: option.splits)

lemma unmounted_step:
  assumes "wf u" and "\<not> mounted u" and "dispatch ev u = Inr u'"
  shows "\<not> mounted u' \<and> items (storage u') = items (storage u) \<and> isSaving u' = isSaving u
    \<and> count u' = count u \<and> history u' = history u"
proof -
  from assms(1,2) have "\<not> keydownListener u" "timers u = []" by (simp_all add: wf_def)
  with assms(2,3) show ?thesis by (cases ev) auto
qed

lemma unmounted_run:
  assumes "wf u" and "\<not> mounted u" and "run evs u = Inr u'"
  shows "\<not> mounted u' \<and> items (storage u') = items (storage u) \<and> isSaving u' = isSaving u
    \<and> count u' = count u \<and> history u' = history u"
  using assms
proof (induction evs arbitrary: u)
  case Nil
  then show ?case by simp
next
  case (Cons ev evs)
  obtain u1 where u1: "dispatch ev u = Inr u1" using dispatch_total by blast
  with Cons.prems have r: "run evs u1 = Inr u'" by simp
  from Cons.prems(1) u1 have wf1: "wf u1" by (rule wf_dispatch)
  from unmounted_step [OF Cons.prems(1,2) u1]
  have k: "\<not> mounted u1" "items (storage u1) = items (storage u)" "isSaving u1 = isSaving u"
    "count u1 = count u" "history u1 = history u" by simp_all
  from Cons.IH [OF wf1 k(1) r] k show ?case by simp
qed


subsection \<open>Integers up to \<open>2 ^ 53\<close> are added and subtracted exactly\<close>

lemma bitlen_int_bounds:
  "0 < n \<Longrightarrow> \<exists>k::nat. bitlen_int n = int k + 1 \<and> 2 ^ k \<le> n \<and> n < 2 ^ (k + 1)"
proof (induction n rule: bitlen_int.induct)
  case (1 n)
  show ?case
  proof (cases "n div 2 = 0")
    case True
    with "1.prems" have "n = 1" by presburger
    then have "bitlen_int n = int 0 + 1 \<and> 2 ^ 0 \<le> n \<and> n < 2 ^ (0 + 1)"
      by (simp add: bitlen_int.simps)
    then show ?thesis by blast
  next
    case False
    with "1.prems" have pos: "0 < n div 2" by presburger
    from "1.prems" have nle: "\<not> n \<le> 0" by simp
    from "1.IH" [OF nle pos] obtain k :: nat where k: "bitlen_int (n div 2) = int k + 1"
      "2 ^ k \<le> n div 2" "n div 2 < 2 ^ (k + 1)" by blast
    define P where "P = (2::int) ^ k"
    from k(2,3) have "P \<le> n div 2" "n div 2 < 2 * P" by (simp_all add: P_def)
    then have "2 * P \<le> n" "n < 2 * (2 * P)" by presburger+
    then have "2 ^ (k + 1) \<le> n" "n < 2 ^ (k + 1 + 1)" by (simp_all add: P_def)
    moreover have "bitlen_int n = int (k + 1) + 1"
      using "1.prems" k(1) by (simp add: bitlen_int.simps [of n])
    ultimately show ?thesis by blast
  qed
qed

lemma bitlen_int_one: "bitlen_int 1 = 1"
  by (simp add: bitlen_int.simps)

lemma floor_log2_of_int:
  assumes "0 < k" and "k \<le> 2 ^ 53"
  shows "\<exists>e::nat. floor_log2 (of_int k) = int e \<and> 2 ^ e \<le> k \<and> e \<le> 53"
proof -
  from bitlen_int_bounds [OF assms(1)] obtain e :: nat where
    e: "bitlen_int k = int e + 1" "2 ^ e \<le> k" "k < 2 ^ (e + 1)" by blast
  have "(2::rat) ^ e \<le> of_int k"
    using e(2) by (metis of_int_le_iff of_int_numeral of_int_power)
  then have "floor_log2 (of_int k) = int e"
    by (simp add: floor_log2_def e(1) bitlen_int_one pow2_def)
  moreover have "e \<le> 53"
  proof (rule ccontr)
    assume "\<not> e \<le> 53"
    then have "54 \<le> e" by simp
    then have "(2::int) ^ 54 \<le> 2 ^ e" by (intro power_increasing) simp_all
    with e(2) assms(2) show False by simp
  qed
  ultimately show ?thesis using e(2) by blast
qed

lemma round_half_even_of_int: "round_half_even (of_int m) = m"
  by (simp add: round_half_even_def)

lemma round_mag_of_int:
  assumes "0 < k" and "k \<le> 2 ^ 53"
  shows "round_mag (of_int k) = Some (of_int k)"
proof -
  from floor_log2_of_int [OF assms] obtain e :: nat where
    e: "floor_log2 (of_int k) = int e" "2 ^ e \<le> k" "e \<le> 53" by blast
  show ?thesis
  proof (cases "e = 53")
    case True
    with e(2) assms(2) have k: "k = 2 ^ 53" by simp
    have "(of_int k :: rat) / 2 = of_int (2 ^ 52)" by (simp add: k)
    then have "round_half_even (of_int k / 2) = 2 ^ 52"
      by (simp only: round_half_even_of_int)
    then show ?thesis
      using e(1) True by (simp add: round_mag_def pow2_def k)
  next
    case False
    with e(3) have le: "e \<le> 52" by simp
    then have p: "max (int e - 52) (- 1074) = int e - 52" by simp
    have pw: "pow2 (int e - 52) = 1 / 2 ^ (52 - e)"
    proof (cases "e = 52")
      case True
      then show ?thesis by (simp add: pow2_def)
    next
      case False
      with le have "nat (52 - int e) = 52 - e" by simp
      with False le show ?thesis by (simp add: pow2_def)
    qed
    have q: "(of_int k :: rat) / pow2 (int e - 52) = of_int (k * 2 ^ (52 - e))"
      by (simp add: pw)
    have r: "round_half_even (of_int k / pow2 (int e - 52)) = k * 2 ^ (52 - e)"
      by (simp only: q round_half_even_of_int)
    have v: "(of_int (k * 2 ^ (52 - e)) :: rat) * pow2 (int e - 52) = of_int k"
      by (simp add: pw)
    have c: "\<not> (1024 \<le> int e \<or> (int e = 1023 \<and> k * 2 ^ (52 - e) = 2 ^ 53))"
      using le by simp
    show ?thesis
      by (simp only: round_mag_def Let_def e(1) p r v c if_False)
  qed
qed

lemma round_double_of_int:
  assumes "\<bar>k\<bar> \<le> 2 ^ 53"
  shows "round_double (of_int k) = Fin (of_int k)"
proof -
  consider "k = 0" | "0 < k" | "k < 0" by linarith
  then show ?thesis
  proof cases
    case 1
    then show ?thesis by (simp add: round_double_def)
  next
    case 2
    with assms have "k \<le> 2 ^ 53" by simp
    from round_mag_of_int [OF 2 this] 2 show ?thesis by (simp add: round_double_def)
  next
    case 3
    with assms have "0 < - k" "- k \<le> 2 ^ 53" by simp_all
    from round_mag_of_int [OF this] have "round_mag (- of_int k) = Some (- of_int k)" by simp
    with 3 show ?thesis by (simp add: round_double_def)
  qed
qed

lemma jsadd_int:
  "\<bar>a + b\<bar> \<le> 2 ^ 53 \<Longrightarrow> jsadd (Fin (of_int a)) (Fin (of_int b)) = Fin (of_int (a + b))"
  using round_double_of_int [of "a + b"] by simp

lemma jssub_int:
  assumes "\<bar>a - b\<bar> \<le> 2 ^ 53"
  shows "jssub (Fin (of_int a)) (Fin (of_int b)) = Fin (of_int (a - b))"
proof (cases "b = 0")
  case True
  then show ?thesis by (simp add: jssub_def)
next
  case False
  with round_double_of_int [of "a - b"] assms show ?thesis by (simp add: jssub_def)
qed



subsection \<open>The history\<close>

text \<open>
  Consecutive entries of the history are never \<open>===\<close> to each other, so two consecutive
  entries can only be identical when both are NaN.
\<close>

lemma adjacent_strict_eq_snoc:
  "adjacent_strict_eq (xs @ [c]) =
     (adjacent_strict_eq xs \<or> (xs \<noteq> [] \<and> strict_eq (last xs) c))"
  by (induction xs rule: adjacent_strict_eq.induct) auto

lemma history_updater_no_adjacent:
  "\<not> adjacent_strict_eq h \<Longrightarrow> \<not> adjacent_strict_eq (history_updater c h)"
  by (auto simp: history_updater_def adjacent_strict_eq_snoc last_conv_nth)

lemma history_commit:
  "mounted s \<Longrightarrow>
   history (commit old s) =
     (if count s \<noteq> count old then history_updater (count s) (history s) else history s)"
  by (simp add: commit_def effect_defs Let_def split: option.splits)

lemma history_unmount [simp]: "history (unmount s) = history s"
  by (simp add: unmount_def effect_defs Let_def split: option.splits)

lemma history_step:
  assumes "wf s" and "dispatch ev s = Inr s'" and "\<not> adjacent_strict_eq (history s)"
  shows "\<not> adjacent_strict_eq (history s')"
proof (cases "mounted s")
  case False
  from unmounted_step [OF assms(1) False assms(2)] assms(3) show ?thesis by simp
next
  case True
  with assms(1) have k: "keydownListener s" by (simp add: wf_def)
  show ?thesis
  proof (cases ev)
    case Click_reset
    with True assms show ?thesis
      by (auto simp: reset_eq history_commit history_updater_def split: if_splits)
  next
    case (Timer_fires i)
    show ?thesis
    proof (cases "find (\<lambda>t. tid t = i) (timers s)")
      case None
      with Timer_fires assms show ?thesis by simp
    next
      case (Some t)
      show ?thesis
      proof (cases "due t \<le> now s")
        case False
        with Timer_fires Some assms show ?thesis by simp
      next
        case True
        from dispatch_timer_fires [OF assms(1) Some True] Timer_fires assms(2,3)
        show ?thesis by auto
      qed
    qed
  qed (use True k assms in
      \<open>auto simp: history_commit history_updater_no_adjacent split: if_splits\<close>)
qed

lemma history_never_adjacent_strict_eq:
  assumes "session st evs = Inr s"
  shows "\<not> adjacent_strict_eq (history s)"
  using assms
proof (induction evs arbitrary: s rule: rev_induct)
  case Nil
  then show ?case by (auto simp: session_def mount_eq strict_eq_def split: if_splits)
next
  case (snoc ev evs)
  from snoc.prems obtain s1 where s1: "session st evs = Inr s1" "dispatch ev s1 = Inr s"
    by (auto simp: session_snoc)
  from s1(1) have "wf s1" by (rule wf_session)
  from history_step [OF this s1(2) snoc.IH [OF s1(1)]] show ?case .
qed

lemma adjacent_identical_is_NaN:
  "\<not> adjacent_strict_eq xs \<Longrightarrow> Suc i < length xs \<Longrightarrow> xs ! i = xs ! Suc i \<Longrightarrow> xs ! i = NaN"
proof (induction xs arbitrary: i rule: adjacent_strict_eq.induct)
  case (1 x y r)
  show ?case
  proof (cases i)
    case 0
    with "1.prems" show ?thesis by (auto simp: strict_eq_def)
  next
    case (Suc j)
    with "1.prems" "1.IH" [of j] show ?thesis by simp
  qed
qed simp_all


text \<open>What a click on Reset leaves behind, once the effects have run.\<close>

lemma reset_outcome:
  assumes "mounted s" and "dispatch Click_reset s = Inr s'"
  shows "count s' = Fin 0
    \<and> history s' = (if count s = Fin 0 then [] else [Fin 0])
    \<and> (removeThrows (storage s) \<or> persisted s' = None)"
proof -
  from assms have s': "s' = commit s (s\<lparr>count := Fin 0, history := [],
      storage := storage_after_remove (storage s)\<rparr>)"
    by (simp add: reset_eq)
  have "removeThrows (storage s) \<or> persisted s' = None"
    by (simp add: s' persisted_def storage_after_remove_def delete_conv')
  then show ?thesis
    using assms(1) by (auto simp: s' history_commit history_updater_def)
qed


subsection \<open>The history of the first version\<close>

text \<open>
  The first version appends without comparing; its consecutive entries differ all the
  same, by one, as long as the count stays an integer that binary64 represents.
\<close>

lemma core_run_snoc: "core_run (evs @ [ev]) s = core_dispatch ev (core_run evs s)"
  by (induction evs arbitrary: s) simp_all

lemma strict_eq_int: "strict_eq (Fin (of_int a)) (Fin (of_int b)) = (a = b)"
  by (auto simp: strict_eq_def)

lemma core_invariant:
  assumes "int (length evs) \<le> 2 ^ 53"
  shows "\<exists>k. core_count (core_run evs core_initial) = Fin (of_int k) \<and> \<bar>k\<bar> \<le> int (length evs)
    \<and> (core_history (core_run evs core_initial) = []
        \<or> last (core_history (core_run evs core_initial)) = Fin (of_int k))
    \<and> \<not> adjacent_strict_eq (core_history (core_run evs core_initial))"
  using assms
proof (induction evs rule: rev_induct)
  case Nil
  have "core_count core_initial = Fin (of_int 0)" by (simp add: core_initial_def)
  then show ?case by (auto simp: core_initial_def)
next
  case (snoc ev evs)
  let ?s = "core_run evs core_initial"
  from snoc.prems have le: "int (length evs) + 1 \<le> 2 ^ 53" by simp
  with snoc.IH obtain k where k: "core_count ?s = Fin (of_int k)" "\<bar>k\<bar> \<le> int (length evs)"
    "core_history ?s = [] \<or> last (core_history ?s) = Fin (of_int k)"
    "\<not> adjacent_strict_eq (core_history ?s)" by auto
  show ?case
  proof (cases ev)
    case Core_increment
    from k(2) le have "\<bar>k + 1\<bar> \<le> 2 ^ 53" by linarith
    then have "jsadd (Fin (of_int k)) (Fin (of_int 1)) = Fin (of_int (k + 1))" by (rule jsadd_int)
    then have c: "jsadd (core_count ?s) (Fin 1) = Fin (of_int (k + 1))" by (simp only: k(1) of_int_1)
    have "\<not> strict_eq (Fin (of_int k)) (Fin (of_int (k + 1)))" by (simp only: strict_eq_int)
    with k(3,4) have "\<not> adjacent_strict_eq (core_history ?s @ [Fin (of_int (k + 1))])"
      by (auto simp: adjacent_strict_eq_snoc)
    moreover from k(2) have "\<bar>k + 1\<bar> \<le> int (length (evs @ [ev]))" by simp
    ultimately show ?thesis
      using Core_increment c by (auto simp: core_run_snoc updateCount_def simp del: of_int_add)
  next
    case Core_decrement
    from k(2) le have "\<bar>k - 1\<bar> \<le> 2 ^ 53" by linarith
    then have "jssub (Fin (of_int k)) (Fin (of_int 1)) = Fin (of_int (k - 1))" by (rule jssub_int)
    then have c: "jssub (core_count ?s) (Fin 1) = Fin (of_int (k - 1))" by (simp only: k(1) of_int_1)
    have "\<not> strict_eq (Fin (of_int k)) (Fin (of_int (k - 1)))" by (simp only: strict_eq_int)
    with k(3,4) have "\<not> adjacent_strict_eq (core_history ?s @ [Fin (of_int (k - 1))])"
      by (auto simp: adjacent_strict_eq_snoc)
    moreover from k(2) have "\<bar>k - 1\<bar> \<le> int (length (evs @ [ev]))" by simp
    ultimately show ?thesis
      using Core_decrement c by (auto simp: core_run_snoc updateCount_def simp del: of_int_diff)
  qed
qed


section \<open>The claims\<close>

text \<open>
  C1 at a failing input.  On a page with empty storage the count is raised to 1 with
  \<open>ArrowUp\<close> and then reset: the count is 0 and the key is absent, but the history is
  \<open>[0]\<close>, not empty, because the count changed and the history effect ran again on the
  emptied history.  The save effect ran again too: 400 ms later its timeout stores
  \<open>0\<close> under the key.
\<close>

theorem reset_history_is_reseeded:
  "map_sum id (\<lambda>s. (count s, history s, persisted s))
     (session empty_storage [Key_down ''ArrowUp'', Click_reset]) = Inr (Fin 0, [Fin 0], None)
   \<and> map_sum id persisted
     (session empty_storage [Key_down ''ArrowUp'', Click_reset, Elapse 400, Timer_fires 3])
       = Inr (Some ''0'')"
  by code_simp

text \<open>
  C2.  Whenever the count changes, the timeout scheduled before is cancelled and the only
  pending timeout is the new one, due 400 ms later.  Whatever happens next, a value
  appears under the key only when a timeout runs, no earlier than 400 ms after that
  change (so after the last change too), and the value is the string form of the count
  at that moment.  The timeout does write that value when the browser runs it after
  400 ms (unless the storage throws).
\<close>

theorem debounced_write_is_last_value_after_quiet_interval:
  assumes "session st evs1 = Inr s1" and "dispatch ev s1 = Inr s2" and "count s2 \<noteq> count s1"
    and "run evs2 s2 = Inr s3" and "dispatch ev' s3 = Inr s4"
    and "items (storage s4) \<noteq> items (storage s3)" and "persisted s4 \<noteq> None"
  shows "timers s2 = [\<lparr>tid = nextTimerId s1, due = now s1 + 400, snapshot = count s2\<rparr>]
    \<and> now s1 + 400 \<le> now s3
    \<and> (\<exists>i. ev' = Timer_fires i)
    \<and> persisted s4 = Some (String_num (count s3))
    \<and> map_sum id storage (run [Elapse 400, Timer_fires (nextTimerId s1)] s2)
        = Inr (storage_after_set (String_num (count s2)) (storage s2))"
proof -
  from assms(1) have wf1: "wf s1" by (rule wf_session)
  then have wf2: "wf s2" using assms(2) by (rule wf_dispatch)
  then have wf3: "wf s3" using assms(4) by (rule wf_run)
  from change_schedules [OF wf1 assms(2,3)]
  have t2: "timers s2 = [\<lparr>tid = nextTimerId s1, due = now s1 + 400, snapshot = count s2\<rparr>]"
    and n2: "now s2 = now s1" by simp_all
  from t2 n2 have "now s1 \<le> now s2" "\<forall>t\<in>set (timers s2). now s1 + 400 \<le> due t" by simp_all
  from due_bound_run [OF wf2 assms(4) this]
  have b3: "\<forall>t\<in>set (timers s3). now s1 + 400 \<le> due t" by simp
  from write_step [OF wf3 assms(5,6,7)] obtain i t where
    w: "ev' = Timer_fires i" "timers s3 = [t]" "due t \<le> now s3"
      "persisted s4 = Some (String_num (count s3))" by blast
  from b3 w(2,3) have late: "now s1 + 400 \<le> now s3" by simp
  let ?s = "s2\<lparr>now := now s2 + 400\<rparr>"
  have e: "dispatch (Elapse 400) s2 = Inr ?s" by simp
  with wf2 have wfe: "wf ?s" by (rule wf_dispatch)
  have f: "find (\<lambda>t. tid t = nextTimerId s1) (timers ?s)
      = Some \<lparr>tid = nextTimerId s1, due = now s1 + 400, snapshot = count s2\<rparr>"
    using t2 by simp
  have "dispatch (Timer_fires (nextTimerId s1)) ?s =
     Inr (?s\<lparr>timers := [], storage := storage_after_set (String_num (count ?s)) (storage ?s),
            isSaving := False, saveTimerRef := None\<rparr>)"
    by (rule dispatch_timer_fires [OF wfe f]) (simp add: n2)
  then have "map_sum id storage (run [Elapse 400, Timer_fires (nextTimerId s1)] s2)
        = Inr (storage_after_set (String_num (count s2)) (storage s2))"
    by simp
  with t2 late w show ?thesis by blast
qed

theorem debounced_write_is_last_value_after_quiet_interval_witness:
  "session empty_storage [Key_down ''ArrowUp'', Elapse 100, Key_down ''ArrowUp'', Elapse 100]
     = Inr debounce_s1
   \<and> dispatch (Key_down ''ArrowUp'') debounce_s1 = Inr debounce_s2
   \<and> count debounce_s2 \<noteq> count debounce_s1
   \<and> run [Elapse 200, Timer_fires 4, Elapse 100, Timer_fires 4, Elapse 100] debounce_s2
       = Inr (debounce_s2\<lparr>now := 600\<rparr>)
   \<and> dispatch (Timer_fires 4) (debounce_s2\<lparr>now := 600\<rparr>) = Inr debounce_s4
   \<and> items (storage debounce_s4) \<noteq> items (storage (debounce_s2\<lparr>now := 600\<rparr>))
   \<and> persisted debounce_s4 = Some ''3''
   \<and> now debounce_s1 + 400 \<le> now (debounce_s2\<lparr>now := 600\<rparr>)
   \<and> persisted debounce_s4 = Some (String_num (count (debounce_s2\<lparr>now := 600\<rparr>)))"
proof -
  have a: "session empty_storage [Key_down ''ArrowUp'', Elapse 100, Key_down ''ArrowUp'', Elapse 100]
     = Inr debounce_s1" by code_simp
  have b: "dispatch (Key_down ''ArrowUp'') debounce_s1 = Inr debounce_s2" by code_simp
  have c: "count debounce_s2 \<noteq> count debounce_s1" by code_simp
  have d: "run [Elapse 200, Timer_fires 4, Elapse 100, Timer_fires 4, Elapse 100] debounce_s2
       = Inr (debounce_s2\<lparr>now := 600\<rparr>)" by code_simp
  have e: "dispatch (Timer_fires 4) (debounce_s2\<lparr>now := 600\<rparr>) = Inr debounce_s4" by code_simp
  have f: "items (storage debounce_s4) \<noteq> items (storage (debounce_s2\<lparr>now := 600\<rparr>))"
    by code_simp
  have g: "persisted debounce_s4 = Some ''3''" by code_simp
  then have g': "persisted debounce_s4 \<noteq> None" by simp
  from debounced_write_is_last_value_after_quiet_interval [OF a b c d e f g'] a b c d e f g
  show ?thesis by blast
qed

text \<open>
  C3.  In every state of a session, a value stored under the key is either the value the
  storage held when the component was mounted (left by a previous session), or the string
  form of the count of some earlier state of the session: the timeout of the save effect
  writes the count it captured, and that is still the current count when it runs.
\<close>

theorem persisted_value_was_held_by_count:
  assumes "session st evs = Inr s" and "persisted s = Some v"
  shows "map_of (items st) STORAGE_KEY = Some v
    \<or> (\<exists>n\<le>length evs.
          map_sum id (\<lambda>s'. String_num (count s')) (session st (take n evs)) = Inr v)"
  using assms
proof (induction evs arbitrary: s v rule: rev_induct)
  case Nil
  then show ?case by (auto simp: session_def mount_eq persisted_def)
next
  case (snoc ev evs)
  from snoc.prems(1) obtain s1 where s1: "session st evs = Inr s1" "dispatch ev s1 = Inr s"
    by (auto simp: session_snoc)
  from s1(1) have "wf s1" by (rule wf_session)
  from persisted_step [OF this s1(2)] snoc.prems(2)
  consider "persisted s1 = Some v" | "v = String_num (count s1)" by auto
  then show ?case
  proof cases
    case 1
    from snoc.IH [OF s1(1) 1] show ?thesis
    proof
      assume "map_of (items st) STORAGE_KEY = Some v"
      then show ?thesis by simp
    next
      assume "\<exists>n\<le>length evs.
          map_sum id (\<lambda>s'. String_num (count s')) (session st (take n evs)) = Inr v"
      then obtain n where "n \<le> length evs"
        "map_sum id (\<lambda>s'. String_num (count s')) (session st (take n evs)) = Inr v" by blast
      then have "n \<le> length (evs @ [ev]) \<and>
        map_sum id (\<lambda>s'. String_num (count s')) (session st (take n (evs @ [ev]))) = Inr v"
        by simp
      then show ?thesis by blast
    qed
  next
    case 2
    with s1(1) have "length evs \<le> length (evs @ [ev]) \<and>
        map_sum id (\<lambda>s'. String_num (count s')) (session st (take (length evs) (evs @ [ev]))) = Inr v"
      by simp
    then show ?thesis by blast
  qed
qed

theorem persisted_value_was_held_by_count_witness:
  "session empty_storage [Elapse 400, Timer_fires 1]
      = Inr (fresh\<lparr>isSaving := False, saveTimerRef := None,
                   storage := storage_holding ''0'', timers := [], now := 400\<rparr>)
   \<and> persisted (fresh\<lparr>isSaving := False, saveTimerRef := None,
                   storage := storage_holding ''0'', timers := [], now := 400\<rparr>) = Some ''0''
   \<and> (map_of (items empty_storage) STORAGE_KEY = Some ''0''
      \<or> (\<exists>n\<le>length [Elapse 400, Timer_fires 1].
          map_sum id (\<lambda>s'. String_num (count s'))
            (session empty_storage (take n [Elapse 400, Timer_fires 1])) = Inr ''0''))"
proof -
  have a: "session empty_storage [Elapse 400, Timer_fires 1]
      = Inr (fresh\<lparr>isSaving := False, saveTimerRef := None,
                   storage := storage_holding ''0'', timers := [], now := 400\<rparr>)"
    by code_simp
  have b: "persisted (fresh\<lparr>isSaving := False, saveTimerRef := None,
                   storage := storage_holding ''0'', timers := [], now := 400\<rparr>) = Some ''0''"
    by code_simp
  from persisted_value_was_held_by_count [OF a b] a b show ?thesis by blast
qed

text \<open>
  C4.  From the moment the component is unmounted, nothing writes to the storage and
  nothing changes the Saving flag: the unmount itself cancels the pending timeout, removes
  the key listener and raises \<open>isUnmountedRef\<close>, and leaves storage and flag as they
  were (the \<open>setIsSaving(false)\<close> of the save effect's cleanup, which runs before
  \<open>isUnmountedRef\<close> is raised, is a state update of a component already removed, which
  React discards); afterwards no event changes the storage or the flag, no timeout is
  pending, and a timeout callback that ran all the same would return at its check of
  \<open>isUnmountedRef\<close> without any effect.
\<close>

theorem nothing_happens_after_unmount:
  assumes "session st evs = Inr s" and "mounted s"
    and "dispatch Unmount s = Inr u" and "run evs' u = Inr s'"
  shows "timers u = [] \<and> \<not> keydownListener u \<and> isUnmountedRef u
    \<and> items (storage u) = items (storage s) \<and> isSaving u = isSaving s
    \<and> items (storage s') = items (storage u) \<and> isSaving s' = isSaving u
    \<and> timers s' = [] \<and> save_timer_callback c s' = Inr s'"
proof -
  from assms(1) have wfs: "wf s" by (rule wf_session)
  from assms(2,3) have u: "u = unmount s" by simp
  from wfs assms(3) have wfu: "wf u" by (rule wf_dispatch)
  have nm: "\<not> mounted u" by (simp add: u unmount_def effect_defs Let_def split: option.splits)
  from wfu assms(4) have wf': "wf s'" by (rule wf_run)
  from unmounted_run [OF wfu nm assms(4)]
  have r: "\<not> mounted s'" "items (storage s') = items (storage u)" "isSaving s' = isSaving u"
    by simp_all
  from wfu nm have a: "timers u = []" "\<not> keydownListener u" "isUnmountedRef u"
    by (simp_all add: wf_def)
  from wf' r(1) have b: "timers s' = []" "isUnmountedRef s'" by (simp_all add: wf_def)
  from b(2) have "save_timer_callback c s' = Inr s'" by (rule save_timer_callback_unmounted)
  then show ?thesis using a b r u by simp
qed

theorem nothing_happens_after_unmount_witness:
  "session empty_storage [] = Inr fresh \<and> mounted fresh
   \<and> dispatch Unmount fresh = Inr unmounted_fresh
   \<and> run [Elapse 500, Timer_fires 1, Key_down ''ArrowUp'', Click_increment, Click_reset]
        unmounted_fresh = Inr (unmounted_fresh\<lparr>now := 500\<rparr>)
   \<and> items (storage (unmounted_fresh\<lparr>now := 500\<rparr>)) = items (storage unmounted_fresh)
   \<and> isSaving (unmounted_fresh\<lparr>now := 500\<rparr>) = isSaving unmounted_fresh
   \<and> save_timer_callback (Fin 0) (unmounted_fresh\<lparr>now := 500\<rparr>)
       = Inr (unmounted_fresh\<lparr>now := 500\<rparr>)"
proof -
  have a: "session empty_storage [] = Inr fresh" by (rule session_empty_fresh)
  have b: "mounted fresh" by (simp add: fresh_def)
  have c: "dispatch Unmount fresh = Inr unmounted_fresh" by code_simp
  have d: "run [Elapse 500, Timer_fires 1, Key_down ''ArrowUp'', Click_increment, Click_reset]
        unmounted_fresh = Inr (unmounted_fresh\<lparr>now := 500\<rparr>)" by code_simp
  from nothing_happens_after_unmount [OF a b c d, of "Fin 0"] a b c d show ?thesis by blast
qed

text \<open>
  C5 at a failing input.  On a page whose storage holds \<open>abc\<close> under the key, the
  component mounts with count NaN and history \<open>[NaN]\<close>; the history effect compares with
  \<open>===\<close>, under which NaN differs from itself, and appends NaN again.  The history then
  has two entries, both NaN, and the count has not changed once.
\<close>

theorem history_repeats_NaN:
  "map_sum id (\<lambda>s. (count s, history s)) (session (storage_holding ''abc'') [])
     = Inr (NaN, [NaN, NaN])"
  by code_simp

text \<open>
  C6, as stated, fails: the step input \<open>-3\<close> leaves the step \<open>-3\<close>, which is not a
  positive integer.
\<close>

theorem negative_step_counterexample:
  "\<not> is_positive_integer (step (handleStepChange ''-3'' fresh))"
proof -
  have "Number_str ''-3'' = Fin (- 3)" by code_simp
  then have "step (handleStepChange ''-3'' fresh) = Fin (- 3)"
    by (simp add: handleStepChange_def setStep_def Number_isNaN_def strict_eq_def fresh_def)
  then show ?thesis by simp
qed

text \<open>
  C6, amended.  For every raw string the step-setting operation raises no error and leaves
  a finite step that is not zero: the step is 1 when the numeric coercion of the string is
  NaN, infinite or zero, and otherwise it is the coerced value itself (which may be
  negative or fractional).
\<close>

theorem step_is_finite_and_nonzero:
  assumes "mounted s"
  shows "(\<exists>s'. dispatch (Change_step raw) s = Inr s')
   \<and> Number_isFinite (step (handleStepChange raw s))
   \<and> \<not> is_zero (step (handleStepChange raw s))
   \<and> step (handleStepChange raw s) =
       (if Number_isFinite (Number_str raw) \<and> \<not> is_zero (Number_str raw)
        then Number_str raw else Fin 1)"
  using assms
  by (cases "Number_str raw")
     (simp_all add: handleStepChange_def setStep_def Number_isNaN_def strict_eq_def Let_def)

theorem step_is_finite_and_nonzero_witness:
  "mounted fresh
   \<and> step (handleStepChange ''0'' fresh) = Fin 1
   \<and> step (handleStepChange ''abc'' fresh) = Fin 1
   \<and> step (handleStepChange ''5'' fresh) = Fin 5
   \<and> step (handleStepChange ''2.5'' fresh) = Fin (5 / 2)"
proof -
  have m: "mounted fresh" by (simp add: fresh_def)
  have n: "Number_str ''0'' = Fin 0" "Number_str ''abc'' = NaN" "Number_str ''5'' = Fin 5"
    "Number_str ''2.5'' = Fin (5 / 2)"
    by code_simp+
  from step_is_finite_and_nonzero [OF m, of "''0''"] n(1)
  have a: "step (handleStepChange ''0'' fresh) = Fin 1" by simp
  from step_is_finite_and_nonzero [OF m, of "''abc''"] n(2)
  have b: "step (handleStepChange ''abc'' fresh) = Fin 1" by simp
  from step_is_finite_and_nonzero [OF m, of "''5''"] n(3)
  have c: "step (handleStepChange ''5'' fresh) = Fin 5" by simp
  from step_is_finite_and_nonzero [OF m, of "''2.5''"] n(4)
  have d: "step (handleStepChange ''2.5'' fresh) = Fin (5 / 2)" by simp
  from m a b c d show ?thesis by blast
qed

text \<open>
  C7.  A key press is handled with the step that is current when the key is pressed: in
  every state of a session in which the listener is attached, \<open>ArrowUp\<close> adds the
  current \<open>step\<close> to \<open>count\<close> and \<open>ArrowDown\<close> subtracts it, although the listener was
  attached once, at mount, and reads \<open>stepRef\<close>.  In particular, an edit of the step
  followed by \<open>ArrowUp\<close> adds the step just set; after setting it to \<open>5\<close> the count grows
  by 5.
\<close>

theorem keyboard_reads_current_step:
  assumes "session st evs = Inr s" and "keydownListener s"
  shows "map_sum id count (dispatch (Key_down ''ArrowUp'') s) = Inr (jsadd (count s) (step s))
    \<and> map_sum id count (dispatch (Key_down ''ArrowDown'') s) = Inr (jssub (count s) (step s))
    \<and> map_sum id count (run [Change_step raw, Key_down ''ArrowUp''] s)
        = Inr (jsadd (count s) (step (handleStepChange raw s)))
    \<and> map_sum id count (run [Change_step ''5'', Key_down ''ArrowUp''] s)
        = Inr (jsadd (count s) (Fin 5))"
proof -
  from assms(1) have wf: "wf s" by (rule wf_session)
  with assms(2) have m: "mounted s" and r: "stepRef s = step s" by (simp_all add: wf_def)
  have five: "Number_str ''5'' = Fin 5" by code_simp
  have h5: "step (handleStepChange ''5'' s) = Fin 5"
    using m by (simp add: handleStepChange_def five setStep_def Number_isNaN_def strict_eq_def)
  have up: "map_sum id count (dispatch (Key_down ''ArrowUp'') s) = Inr (jsadd (count s) (step s))"
    using assms(2) r m by (simp add: onKeyDown_def setCount_def)
  have down: "map_sum id count (dispatch (Key_down ''ArrowDown'') s) = Inr (jssub (count s) (step s))"
    using assms(2) r m by (simp add: onKeyDown_def setCount_def)
  have gen: "map_sum id count (run [Change_step v, Key_down ''ArrowUp''] s)
        = Inr (jsadd (count s) (step (handleStepChange v s)))" for v
  proof -
    let ?s1 = "commit s (handleStepChange v s)"
    have "stepRef (handleStepChange v s) = stepRef s"
      by (simp add: handleStepChange_def setStep_def Let_def)
    with r have "stepRef ?s1 = step (handleStepChange v s)" by (simp add: stepRef_commit)
    moreover have "keydownListener ?s1" "count ?s1 = count s" "mounted ?s1"
      using assms(2) m by (simp_all add: handleStepChange_def setStep_def Let_def)
    ultimately show ?thesis
      using m by (simp add: onKeyDown_def setCount_def)
  qed
  from up down gen [of raw] gen [of "''5''"] h5 show ?thesis by simp
qed

theorem keyboard_reads_current_step_witness:
  "session empty_storage [] = Inr fresh \<and> keydownListener fresh
   \<and> map_sum id count (run [Change_step ''5'', Key_down ''ArrowUp''] fresh) = Inr (Fin 5)"
proof -
  have a: "session empty_storage [] = Inr fresh" by (rule session_empty_fresh)
  have b: "keydownListener fresh" by (simp add: fresh_def)
  have c: "jsadd (count fresh) (Fin 5) = Fin 5" by code_simp
  from keyboard_reads_current_step [OF a b, of "''5''"]
  have "map_sum id count (run [Change_step ''5'', Key_down ''ArrowUp''] fresh)
          = Inr (jsadd (count fresh) (Fin 5))"
    by blast
  then have "map_sum id count (run [Change_step ''5'', Key_down ''ArrowUp''] fresh) = Inr (Fin 5)"
    by (simp only: c)
  with a b show ?thesis by blast
qed

text \<open>
  C8, as stated, fails: a count of \<open>2 ^ 53\<close>, read from the storage, is not changed by
  an increment with step 1, because \<open>2 ^ 53 + 1\<close> is not a binary64 value and rounds
  back to \<open>2 ^ 53\<close>.  After two increments the count is still \<open>2 ^ 53\<close>, not
  \<open>2 ^ 53 + 2\<close>.
\<close>

theorem count_beyond_safe_range_counterexample:
  "map_sum id (\<lambda>s. (count s, step s)) (session (storage_holding ''9007199254740992'') [])
     = Inr (Fin (2 ^ 53), Fin 1)
   \<and> map_sum id count
       (session (storage_holding ''9007199254740992'') [Click_increment, Click_increment])
     = Inr (Fin (2 ^ 53))
   \<and> Fin (2 ^ 53) \<noteq> Fin (2 ^ 53 + (2 - 0) * 1)"
  by code_simp

text \<open>
  C8, amended.  When the count \<open>c\<close> and the step \<open>S\<close> are integers and
  \<open>\<bar>c\<bar> + N * \<bar>S\<bar> \<le> 2 ^ 53\<close> for the number \<open>N\<close> of clicks, the count after any
  sequence of \<open>N\<close> clicks on Increment and Decrement is \<open>c\<close> plus the number of
  increments minus the number of decrements, times \<open>S\<close>.
\<close>

theorem count_after_clicks_in_safe_range:
  assumes "mounted s" and "count s = Fin (of_int c)" and "step s = Fin (of_int S)"
    and "set ops \<subseteq> {Click_increment, Click_decrement}"
    and "\<bar>c\<bar> + int (length ops) * \<bar>S\<bar> \<le> 2 ^ 53"
  shows "map_sum id count (run ops s) =
    Inr (Fin (of_int (c + (int (count_list ops Click_increment)
                           - int (count_list ops Click_decrement)) * S)))"
  using assms
proof (induction ops arbitrary: s c)
  case Nil
  then show ?case by simp
next
  case (Cons ev ops)
  from Cons.prems(5) have b: "\<bar>c\<bar> + \<bar>S\<bar> + int (length ops) * \<bar>S\<bar> \<le> 2 ^ 53"
    by (simp add: algebra_simps)
  have nn: "0 \<le> int (length ops) * \<bar>S\<bar>" by simp
  from Cons.prems(4) have ops: "set ops \<subseteq> {Click_increment, Click_decrement}" by simp
  from Cons.prems(4) consider "ev = Click_increment" | "ev = Click_decrement" by auto
  then show ?case
  proof cases
    case 1
    let ?s1 = "commit s (increment s)"
    from b nn have "\<bar>c + S\<bar> \<le> 2 ^ 53" by linarith
    then have "jsadd (Fin (of_int c)) (Fin (of_int S)) = Fin (of_int (c + S))"
      by (rule jsadd_int)
    moreover have "count ?s1 = jsadd (count s) (step s)" using Cons.prems(1) by simp
    ultimately have c1: "count ?s1 = Fin (of_int (c + S))"
      by (simp only: Cons.prems(2,3))
    have m1: "mounted ?s1" using Cons.prems(1) by simp
    have st1: "step ?s1 = Fin (of_int S)" using Cons.prems(3) by simp
    have bd: "\<bar>c + S\<bar> + int (length ops) * \<bar>S\<bar> \<le> 2 ^ 53" using b by linarith
    have r: "run (ev # ops) s = run ops ?s1" using 1 Cons.prems(1) by simp
    have a: "c + S + (int (count_list ops Click_increment)
                           - int (count_list ops Click_decrement)) * S
        = c + (int (count_list (ev # ops) Click_increment)
                           - int (count_list (ev # ops) Click_decrement)) * S"
      using 1 by (simp add: algebra_simps)
    from Cons.IH [OF m1 c1 st1 ops bd] show ?thesis by (simp only: r a)
  next
    case 2
    let ?s1 = "commit s (decrement s)"
    from b nn have "\<bar>c - S\<bar> \<le> 2 ^ 53" by linarith
    then have "jssub (Fin (of_int c)) (Fin (of_int S)) = Fin (of_int (c - S))"
      by (rule jssub_int)
    moreover have "count ?s1 = jssub (count s) (step s)" using Cons.prems(1) by simp
    ultimately have c1: "count ?s1 = Fin (of_int (c - S))"
      by (simp only: Cons.prems(2,3))
    have m1: "mounted ?s1" using Cons.prems(1) by simp
    have st1: "step ?s1 = Fin (of_int S)" using Cons.prems(3) by simp
    have bd: "\<bar>c - S\<bar> + int (length ops) * \<bar>S\<bar> \<le> 2 ^ 53" using b by linarith
    have r: "run (ev # ops) s = run ops ?s1" using 2 Cons.prems(1) by simp
    have a: "c - S + (int (count_list ops Click_increment)
                           - int (count_list ops Click_decrement)) * S
        = c + (int (count_list (ev # ops) Click_increment)
                           - int (count_list (ev # ops) Click_decrement)) * S"
      using 2 by (simp add: algebra_simps)
    from Cons.IH [OF m1 c1 st1 ops bd] show ?thesis by (simp only: r a)
  qed
qed

theorem count_after_clicks_in_safe_range_witness:
  "mounted fresh \<and> count fresh = Fin (of_int 0) \<and> step fresh = Fin (of_int 1)
   \<and> set [Click_increment, Click_increment, Click_decrement] \<subseteq> {Click_increment, Click_decrement}
   \<and> \<bar>0\<bar> + int (length [Click_increment, Click_increment, Click_decrement]) * \<bar>1\<bar> \<le> (2::int) ^ 53
   \<and> map_sum id count (run [Click_increment, Click_increment, Click_decrement] fresh)
       = Inr (Fin 1)"
proof -
  have a: "mounted fresh" by (simp add: fresh_def)
  have b: "count fresh = Fin (of_int 0)" by (simp add: fresh_def)
  have c: "step fresh = Fin (of_int 1)" by (simp add: fresh_def)
  have d: "set [Click_increment, Click_increment, Click_decrement]
      \<subseteq> {Click_increment, Click_decrement}" by simp
  have e: "\<bar>0\<bar> + int (length [Click_increment, Click_increment, Click_decrement]) * \<bar>1\<bar>
      \<le> (2::int) ^ 53" by simp
  from count_after_clicks_in_safe_range [OF a b c d e]
  have "map_sum id count (run [Click_increment, Click_increment, Click_decrement] fresh)
       = Inr (Fin 1)" by simp
  with a b c d e show ?thesis by blast
qed

text \<open>
  C9.  No failure of the storage reaches the consumer: mounting and every event return a
  state, never an exception.  When the read throws, the count starts at 0 and the history
  at \<open>[0]\<close>.  When the write of a due timeout throws, the Saving flag is cleared and the
  timer reference reset all the same, and the storage is left as it was.
\<close>

theorem storage_failures_are_swallowed:
  "(\<exists>s0. mount st = Inr s0) \<and> (\<exists>s'. dispatch ev s = Inr s')
   \<and> (getThrows st \<longrightarrow>
        map_sum id (\<lambda>s0. (count s0, history s0)) (mount st) = Inr (Fin 0, [Fin 0]))
   \<and> (session st evs = Inr s \<and> find (\<lambda>t. tid t = i) (timers s) = Some t \<and> due t \<le> now s
        \<and> setThrows (storage s) \<longrightarrow>
        map_sum id (\<lambda>s'. (isSaving s', saveTimerRef s', storage s')) (dispatch (Timer_fires i) s)
          = Inr (False, None, storage s))"
proof (intro conjI impI)
  show "\<exists>s0. mount st = Inr s0" by (simp add: mount_eq)
  show "\<exists>s'. dispatch ev s = Inr s'" by (rule dispatch_total)
  show "map_sum id (\<lambda>s0. (count s0, history s0)) (mount st) = Inr (Fin 0, [Fin 0])"
    if "getThrows st"
    using that by (simp add: mount_eq initial_value_def getItem_def)
  show "map_sum id (\<lambda>s'. (isSaving s', saveTimerRef s', storage s')) (dispatch (Timer_fires i) s)
          = Inr (False, None, storage s)"
    if h: "session st evs = Inr s \<and> find (\<lambda>t. tid t = i) (timers s) = Some t \<and> due t \<le> now s
        \<and> setThrows (storage s)"
  proof -
    from h have "session st evs = Inr s" by simp
    then have wf: "wf s" by (rule wf_session)
    from h have f: "find (\<lambda>t. tid t = i) (timers s) = Some t" and d: "due t \<le> now s"
      and th: "setThrows (storage s)" by simp_all
    from dispatch_timer_fires [OF wf f d] th show ?thesis
      by (simp add: storage_after_set_def)
  qed
qed

theorem storage_failures_are_swallowed_witness:
  "getThrows denied_storage
   \<and> session denied_storage [Elapse 400] = Inr (fresh\<lparr>storage := denied_storage, now := 400\<rparr>)
   \<and> find (\<lambda>t. tid t = 1) (timers (fresh\<lparr>storage := denied_storage, now := 400\<rparr>))
       = Some \<lparr>tid = 1, due = 400, snapshot = Fin 0\<rparr>
   \<and> due \<lparr>tid = 1, due = 400, snapshot = Fin 0\<rparr> \<le> now (fresh\<lparr>storage := denied_storage, now := 400\<rparr>)
   \<and> setThrows (storage (fresh\<lparr>storage := denied_storage, now := 400\<rparr>))
   \<and> map_sum id (\<lambda>s0. (count s0, history s0)) (mount denied_storage) = Inr (Fin 0, [Fin 0])
   \<and> map_sum id (\<lambda>s'. (isSaving s', saveTimerRef s', storage s'))
        (dispatch (Timer_fires 1) (fresh\<lparr>storage := denied_storage, now := 400\<rparr>))
          = Inr (False, None, denied_storage)"
proof -
  let ?s = "fresh\<lparr>storage := denied_storage, now := 400\<rparr>"
  let ?t = "\<lparr>tid = 1, due = 400, snapshot = Fin 0\<rparr>"
  have a: "getThrows denied_storage" by (simp add: denied_storage_def)
  have b: "session denied_storage [Elapse 400] = Inr ?s" by code_simp
  have c: "find (\<lambda>t. tid t = 1) (timers ?s) = Some ?t" by (simp add: fresh_def)
  have d: "due ?t \<le> now ?s" by simp
  have e: "setThrows (storage ?s)" by (simp add: denied_storage_def)
  have f: "storage ?s = denied_storage" by simp
  from storage_failures_are_swallowed [of denied_storage Click_reset ?s "[Elapse 400]" 1 ?t]
    a b c d e
  have "map_sum id (\<lambda>s0. (count s0, history s0)) (mount denied_storage) = Inr (Fin 0, [Fin 0])"
    and "map_sum id (\<lambda>s'. (isSaving s', saveTimerRef s', storage s'))
        (dispatch (Timer_fires 1) ?s) = Inr (False, None, storage ?s)"
    by blast+
  with a b c d e f show ?thesis by (simp only:) 
qed

text \<open>
  C10.  The initial count is the numeric coercion of the stored string whenever the read
  returns one, also when that string is not a number: it is 0 only when the read throws
  or the key is absent.  The history starts with the same value.  With \<open>abc\<close> stored
  the count starts as NaN.
\<close>

theorem initial_count_is_coercion:
  "(\<exists>s. mount st = Inr s \<and>
        count s = (case getItem STORAGE_KEY st of
                     Inl e \<Rightarrow> Fin 0
                   | Inr None \<Rightarrow> Fin 0
                   | Inr (Some raw) \<Rightarrow> Number_str raw) \<and>
        hd (history s) = count s)
   \<and> map_sum id count (mount (storage_holding ''abc'')) = Inr NaN"
proof
  show "\<exists>s. mount st = Inr s \<and>
        count s = (case getItem STORAGE_KEY st of
                     Inl e \<Rightarrow> Fin 0
                   | Inr None \<Rightarrow> Fin 0
                   | Inr (Some raw) \<Rightarrow> Number_str raw) \<and>
        hd (history s) = count s"
    by (simp add: mount_eq initial_value_def)
  have "Number_str ''abc'' = NaN" by code_simp
  then show "map_sum id count (mount (storage_holding ''abc'')) = Inr NaN"
    by (simp add: mount_eq initial_value_def getItem_def storage_holding_def)
qed

end
